theory Spec2Isabelle
  imports Complex_Main "HOL-Library.Monad_Syntax"
begin

section \<open>Reverse-mode automatic differentiation: the computation graph\<close>

text \<open>
  The development embeds the core of \<^verbatim>\<open>03-advanced/03-reverse-autodiff/autodiff.cpp\<close>:
  the node type \<^verbatim>\<open>Var\<close>, its member functions \<^verbatim>\<open>add_edge\<close>, \<^verbatim>\<open>topo_sort\<close>,
  \<^verbatim>\<open>backward\<close>, \<^verbatim>\<open>zero_grad\<close>, and the ten builders \<^verbatim>\<open>op_add\<close> .. \<^verbatim>\<open>op_log\<close>.

  Modelling decisions.
  \<^item> Nodes live on the C++ heap and are referred to by \<^verbatim>\<open>Var*\<close>. The heap is a list of
    nodes and a pointer is an index into it; \<^verbatim>\<open>new Var(v)\<close> appends a node, so the
    address of a node is its allocation number. Dereferencing an address outside the heap
    (undefined behaviour in C++) is the error value \<open>None\<close>.
  \<^item> A \<^verbatim>\<open>double\<close> is modelled by a real number. Rounding, infinities and NaN are outside
    the model; results are exact wherever the IEEE operations involved are exact. The
    predicate \<open>binary64\<close> marks the reals that are finite doubles, for statements whose
    values are universally quantified.
  \<^item> Each lambda stored in a \<^verbatim>\<open>BackwardEdge\<close> captures pointers and reads the heap when it
    is called. The lambdas are defunctionalised: one constructor per form of lambda body
    (\<^verbatim>\<open>result->grad * c\<close> for a constant \<^verbatim>\<open>c\<close>, \<^verbatim>\<open>result->grad * p->val\<close>,
    \<^verbatim>\<open>result->grad / p->val\<close>, and so on), holding the captured pointers and constants,
    and \<open>call_grad_fn\<close> runs the body on the current heap.
  \<^item> \<^verbatim>\<open>topo_sort\<close> and \<^verbatim>\<open>zero_grad_helper\<close> recurse along pointers. Their models take
    a bound on the recursion depth (fuel) and return \<open>None\<close> when it is exhausted.
\<close>

subsection \<open>Data model\<close>

type_synonym addr = nat

datatype closure =
    Grad_times addr real
  | Grad_times_val addr addr
  | Grad_over_val addr addr
  | Grad_div_b addr addr addr
  | Grad_pow addr addr real
  | Grad_sin addr addr
  | Grad_cos addr addr
  | Grad_exp addr

record BackwardEdge =
  input :: addr
  grad_fn :: closure

record Var =
  val :: real
  grad :: real
  backward_edges :: "BackwardEdge list"

type_synonym heap = "Var list"

definition deref :: "heap \<Rightarrow> addr \<Rightarrow> Var option" where
  "deref h p = (if p < length h then Some (h ! p) else None)"


text \<open>\<^verbatim>\<open>std::pow\<close> on the reals, for the arguments where the C library returns a finite
  number; elsewhere (a domain or pole error) the model returns 0.\<close>

definition std_pow :: "real \<Rightarrow> real \<Rightarrow> real" where
  "std_pow x n =
     (if 0 < x then x powr n
      else if n = of_int \<lfloor>n\<rfloor> then
        (if 0 \<le> n then x ^ nat \<lfloor>n\<rfloor>
         else if x = 0 then 0 else 1 / x ^ nat \<lfloor>- n\<rfloor>)
      else 0)"

text \<open>Calling the closure of an edge: the body of the lambda, read on the current heap.\<close>

fun call_grad_fn :: "heap \<Rightarrow> closure \<Rightarrow> real option" where
  "call_grad_fn h (Grad_times r c) =
     do { vr \<leftarrow> deref h r; Some (grad vr * c) }"
| "call_grad_fn h (Grad_times_val r b) =
     do { vr \<leftarrow> deref h r; vb \<leftarrow> deref h b; Some (grad vr * val vb) }"
| "call_grad_fn h (Grad_over_val r b) =
     do { vr \<leftarrow> deref h r; vb \<leftarrow> deref h b; Some (grad vr / val vb) }"
| "call_grad_fn h (Grad_div_b r a b) =
     do { vr \<leftarrow> deref h r; va \<leftarrow> deref h a; vb \<leftarrow> deref h b;
          Some (grad vr * (- val va / (val vb * val vb))) }"
| "call_grad_fn h (Grad_pow r a n) =
     do { vr \<leftarrow> deref h r; va \<leftarrow> deref h a;
          Some (grad vr * n * std_pow (val va) (n - 1)) }"
| "call_grad_fn h (Grad_sin r a) =
     do { vr \<leftarrow> deref h r; va \<leftarrow> deref h a; Some (grad vr * cos (val va)) }"
| "call_grad_fn h (Grad_cos r a) =
     do { vr \<leftarrow> deref h r; va \<leftarrow> deref h a; Some (grad vr * (- sin (val va))) }"
| "call_grad_fn h (Grad_exp r) =
     do { vr \<leftarrow> deref h r; Some (grad vr * val vr) }"

subsection \<open>Loops over the edges of a node\<close>

text \<open>A \<^verbatim>\<open>for\<close> loop over a vector whose body may fail: the state is threaded through
  the elements in order and the first failure ends the loop.\<close>

fun for_each :: "('a \<Rightarrow> 's \<Rightarrow> 's option) \<Rightarrow> 'a list \<Rightarrow> 's \<Rightarrow> 's option" where
  "for_each f [] s = Some s"
| "for_each f (x # xs) s = (case f x s of None \<Rightarrow> None | Some s' \<Rightarrow> for_each f xs s')"

subsection \<open>Member functions of \<^verbatim>\<open>Var\<close>\<close>

text \<open>The constructor \<^verbatim>\<open>Var(double v) : val(v), grad(0.0)\<close> under \<^verbatim>\<open>new\<close>.\<close>

definition new_Var :: "heap \<Rightarrow> real \<Rightarrow> heap \<times> addr" where
  "new_Var h v = (h @ [\<lparr>val = v, grad = 0, backward_edges = []\<rparr>], length h)"

text \<open>A leaf of the graph, as the host binding creates it: \<^verbatim>\<open>new Var(val)\<close>.\<close>

definition leaf :: "heap \<Rightarrow> real \<Rightarrow> (heap \<times> addr) option" where
  "leaf h v = Some (new_Var h v)"

definition add_edge :: "heap \<Rightarrow> addr \<Rightarrow> addr \<Rightarrow> closure \<Rightarrow> heap option" where
  "add_edge h this inp fn =
     do { v \<leftarrow> deref h this;
          Some (h[this := v\<lparr>backward_edges :=
                  backward_edges v @ [\<lparr>input = inp, grad_fn = fn\<rparr>]\<rparr>]) }"

text \<open>\<^verbatim>\<open>topo_sort(order, visited)\<close>; the first argument bounds the recursion depth.\<close>

fun topo_sort :: "nat \<Rightarrow> heap \<Rightarrow> addr \<Rightarrow> addr list \<times> addr set \<Rightarrow> (addr list \<times> addr set) option" where
  "topo_sort 0 h this s = None"
| "topo_sort (Suc n) h this (order, visited) =
     (if this \<in> visited then Some (order, visited)
      else case deref h this of
          None \<Rightarrow> None
        | Some v \<Rightarrow>
            (case for_each (\<lambda>edge. topo_sort n h (input edge)) (backward_edges v)
                    (order, insert this visited) of
               None \<Rightarrow> None
             | Some (order', visited') \<Rightarrow> Some (order' @ [this], visited')))"

text \<open>The inner statement of \<^verbatim>\<open>backward\<close>:
  \<^verbatim>\<open>edge.input->grad += edge.grad_fn()\<close>.\<close>

definition accumulate :: "BackwardEdge \<Rightarrow> heap \<Rightarrow> heap option" where
  "accumulate edge h =
     do { grad_contribution \<leftarrow> call_grad_fn h (grad_fn edge);
          t \<leftarrow> deref h (input edge);
          Some (h[input edge := t\<lparr>grad := grad t + grad_contribution\<rparr>]) }"

text \<open>The body of the outer loop of \<^verbatim>\<open>backward\<close>, for one node of the order.\<close>

definition propagate :: "addr \<Rightarrow> heap \<Rightarrow> heap option" where
  "propagate node h =
     do { v \<leftarrow> deref h node; for_each accumulate (backward_edges v) h }"

definition backward :: "nat \<Rightarrow> heap \<Rightarrow> addr \<Rightarrow> heap option" where
  "backward n h this =
     do { (order, visited) \<leftarrow> topo_sort n h this ([], {});
          v \<leftarrow> deref h this;
          for_each propagate (rev order) (h[this := v\<lparr>grad := 1\<rparr>]) }"

fun zero_grad_helper :: "nat \<Rightarrow> addr \<Rightarrow> heap \<times> addr set \<Rightarrow> (heap \<times> addr set) option" where
  "zero_grad_helper 0 this s = None"
| "zero_grad_helper (Suc n) this (h, visited) =
     (if this \<in> visited then Some (h, visited)
      else case deref h this of
          None \<Rightarrow> None
        | Some v \<Rightarrow>
            for_each (\<lambda>edge. zero_grad_helper n (input edge)) (backward_edges v)
              (h[this := v\<lparr>grad := 0\<rparr>], insert this visited))"

definition zero_grad :: "nat \<Rightarrow> heap \<Rightarrow> addr \<Rightarrow> heap option" where
  "zero_grad n h this = map_option fst (zero_grad_helper n this (h, {}))"

subsection \<open>Operations that build the computation graph\<close>

definition op_add :: "heap \<Rightarrow> addr \<Rightarrow> addr \<Rightarrow> (heap \<times> addr) option" where
  "op_add h a b =
     do { va \<leftarrow> deref h a; vb \<leftarrow> deref h b;
          (h1, result) \<leftarrow> Some (new_Var h (val va + val vb));
          h2 \<leftarrow> add_edge h1 result a (Grad_times result 1);
          h3 \<leftarrow> add_edge h2 result b (Grad_times result 1);
          Some (h3, result) }"

definition op_sub :: "heap \<Rightarrow> addr \<Rightarrow> addr \<Rightarrow> (heap \<times> addr) option" where
  "op_sub h a b =
     do { va \<leftarrow> deref h a; vb \<leftarrow> deref h b;
          (h1, result) \<leftarrow> Some (new_Var h (val va - val vb));
          h2 \<leftarrow> add_edge h1 result a (Grad_times result 1);
          h3 \<leftarrow> add_edge h2 result b (Grad_times result (- 1));
          Some (h3, result) }"

definition op_mul :: "heap \<Rightarrow> addr \<Rightarrow> addr \<Rightarrow> (heap \<times> addr) option" where
  "op_mul h a b =
     do { va \<leftarrow> deref h a; vb \<leftarrow> deref h b;
          (h1, result) \<leftarrow> Some (new_Var h (val va * val vb));
          h2 \<leftarrow> add_edge h1 result a (Grad_times_val result b);
          h3 \<leftarrow> add_edge h2 result b (Grad_times_val result a);
          Some (h3, result) }"

definition op_div :: "heap \<Rightarrow> addr \<Rightarrow> addr \<Rightarrow> (heap \<times> addr) option" where
  "op_div h a b =
     do { va \<leftarrow> deref h a; vb \<leftarrow> deref h b;
          (h1, result) \<leftarrow> Some (new_Var h (val va / val vb));
          h2 \<leftarrow> add_edge h1 result a (Grad_over_val result b);
          h3 \<leftarrow> add_edge h2 result b (Grad_div_b result a b);
          Some (h3, result) }"

definition op_neg :: "heap \<Rightarrow> addr \<Rightarrow> (heap \<times> addr) option" where
  "op_neg h a =
     do { va \<leftarrow> deref h a;
          (h1, result) \<leftarrow> Some (new_Var h (- val va));
          h2 \<leftarrow> add_edge h1 result a (Grad_times result (- 1));
          Some (h2, result) }"

definition op_pow :: "heap \<Rightarrow> addr \<Rightarrow> real \<Rightarrow> (heap \<times> addr) option" where
  "op_pow h a n =
     do { va \<leftarrow> deref h a;
          (h1, result) \<leftarrow> Some (new_Var h (std_pow (val va) n));
          h2 \<leftarrow> add_edge h1 result a (Grad_pow result a n);
          Some (h2, result) }"

definition op_sin :: "heap \<Rightarrow> addr \<Rightarrow> (heap \<times> addr) option" where
  "op_sin h a =
     do { va \<leftarrow> deref h a;
          (h1, result) \<leftarrow> Some (new_Var h (sin (val va)));
          h2 \<leftarrow> add_edge h1 result a (Grad_sin result a);
          Some (h2, result) }"

definition op_cos :: "heap \<Rightarrow> addr \<Rightarrow> (heap \<times> addr) option" where
  "op_cos h a =
     do { va \<leftarrow> deref h a;
          (h1, result) \<leftarrow> Some (new_Var h (cos (val va)));
          h2 \<leftarrow> add_edge h1 result a (Grad_cos result a);
          Some (h2, result) }"

definition op_exp :: "heap \<Rightarrow> addr \<Rightarrow> (heap \<times> addr) option" where
  "op_exp h a =
     do { va \<leftarrow> deref h a;
          (h1, result) \<leftarrow> Some (new_Var h (exp (val va)));
          h2 \<leftarrow> add_edge h1 result a (Grad_exp result);
          Some (h2, result) }"

definition op_log :: "heap \<Rightarrow> addr \<Rightarrow> (heap \<times> addr) option" where
  "op_log h a =
     do { va \<leftarrow> deref h a;
          (h1, result) \<leftarrow> Some (new_Var h (ln (val va)));
          h2 \<leftarrow> add_edge h1 result a (Grad_over_val result a);
          Some (h2, result) }"

subsection \<open>The public interface as a sequence of calls\<close>

datatype builder =
    Add addr addr | Sub addr addr | Mul addr addr | Div addr addr | Neg addr
  | Pow addr real | Sin addr | Cos addr | Exp addr | Log addr

fun build :: "heap \<Rightarrow> builder \<Rightarrow> (heap \<times> addr) option" where
  "build h (Add a b) = op_add h a b"
| "build h (Sub a b) = op_sub h a b"
| "build h (Mul a b) = op_mul h a b"
| "build h (Div a b) = op_div h a b"
| "build h (Neg a) = op_neg h a"
| "build h (Pow a n) = op_pow h a n"
| "build h (Sin a) = op_sin h a"
| "build h (Cos a) = op_cos h a"
| "build h (Exp a) = op_exp h a"
| "build h (Log a) = op_log h a"

text \<open>The operand nodes passed to a builder.\<close>

fun operand_args :: "builder \<Rightarrow> addr list" where
  "operand_args (Add a b) = [a, b]"
| "operand_args (Sub a b) = [a, b]"
| "operand_args (Mul a b) = [a, b]"
| "operand_args (Div a b) = [a, b]"
| "operand_args (Neg a) = [a]"
| "operand_args (Pow a n) = [a]"
| "operand_args (Sin a) = [a]"
| "operand_args (Cos a) = [a]"
| "operand_args (Exp a) = [a]"
| "operand_args (Log a) = [a]"

datatype command = Leaf real | Build builder | Backward addr | Zero_grad addr

text \<open>One call of the public interface; \<open>n\<close> bounds the recursion depth of the two
  traversals.\<close>

fun exec :: "nat \<Rightarrow> command \<Rightarrow> heap \<Rightarrow> heap option" where
  "exec n (Leaf v) h = map_option fst (leaf h v)"
| "exec n (Build b) h = map_option fst (build h b)"
| "exec n (Backward p) h = backward n h p"
| "exec n (Zero_grad p) h = zero_grad n h p"

definition run :: "nat \<Rightarrow> command list \<Rightarrow> heap \<Rightarrow> heap option" where
  "run n cmds h = for_each (exec n) cmds h"

subsection \<open>The graph stored in a heap\<close>

definition operands :: "heap \<Rightarrow> addr \<Rightarrow> addr set" where
  "operands h p = input ` set (backward_edges (h ! p))"

text \<open>\<open>(c, n) \<in> consumes h\<close>: the node \<open>c\<close> holds a backward edge targeting \<open>n\<close>.\<close>

definition consumes :: "heap \<Rightarrow> (addr \<times> addr) set" where
  "consumes h = {(c, n). c < length h \<and> n \<in> operands h c}"

definition reachable :: "heap \<Rightarrow> addr \<Rightarrow> addr set" where
  "reachable h r = (consumes h)\<^sup>* `` {r}"

text \<open>Every backward edge targets a node of the heap.\<close>

definition targets_valid :: "heap \<Rightarrow> bool" where
  "targets_valid h \<longleftrightarrow> (\<forall>(c, n) \<in> consumes h. n < length h)"

text \<open>The pointers captured by a closure.\<close>

fun captured :: "closure \<Rightarrow> addr list" where
  "captured (Grad_times r c) = [r]"
| "captured (Grad_times_val r b) = [r, b]"
| "captured (Grad_over_val r b) = [r, b]"
| "captured (Grad_div_b r a b) = [r, a, b]"
| "captured (Grad_pow r a n) = [r, a]"
| "captured (Grad_sin r a) = [r, a]"
| "captured (Grad_cos r a) = [r, a]"
| "captured (Grad_exp r) = [r]"

text \<open>No dangling pointer: every edge and every closure of the heap points into the heap.\<close>

definition pointers_valid :: "heap \<Rightarrow> bool" where
  "pointers_valid h \<longleftrightarrow>
     (\<forall>v \<in> set h. \<forall>e \<in> set (backward_edges v).
        input e < length h \<and> (\<forall>q \<in> set (captured (grad_fn e)). q < length h))"

text \<open>The graph is acyclic: some rank strictly decreases along every edge. For a heap
  built through the builders the address itself is such a rank, since an operand exists
  before the node that consumes it.\<close>

definition acyclic_by :: "(addr \<Rightarrow> nat) \<Rightarrow> heap \<Rightarrow> bool" where
  "acyclic_by rank h \<longleftrightarrow> (\<forall>(c, n) \<in> consumes h. rank n < rank c)"

text \<open>\<open>strictly_before xs x y\<close>: \<open>x\<close> occurs in \<open>xs\<close> and \<open>y\<close> occurs at a later
  position.\<close>

fun strictly_before :: "'a list \<Rightarrow> 'a \<Rightarrow> 'a \<Rightarrow> bool" where
  "strictly_before [] x y = False"
| "strictly_before (z # zs) x y = ((z = x \<and> y \<in> set zs) \<or> strictly_before zs x y)"

text \<open>A dependency-respecting order: every node of the list is in the heap and each of
  its operands occurs strictly before it.\<close>

definition post_ordered :: "heap \<Rightarrow> addr list \<Rightarrow> bool" where
  "post_ordered h order \<longleftrightarrow>
     (\<forall>c \<in> set order. c < length h \<and> (\<forall>m \<in> operands h c. strictly_before order m c))"

text \<open>What \<^verbatim>\<open>backward\<close> and \<^verbatim>\<open>zero_grad\<close> never write: the heap with every
  gradient blanked.\<close>

definition shape :: "heap \<Rightarrow> heap" where
  "shape h = map (\<lambda>v. v\<lparr>grad := 0\<rparr>) h"

subsection \<open>Graphs used as examples\<close>

text \<open>The graph of the README, \<open>f = (x + y) * x\<close> with \<open>x = 2\<close> and \<open>y = 3\<close>, as the
  builders lay it out in an empty heap: \<open>x\<close>, \<open>y\<close>, \<open>x + y\<close>, \<open>f\<close> at addresses 0 to 3.\<close>

definition readme_graph :: heap where
  "readme_graph =
     [\<lparr>val = 2, grad = 0, backward_edges = []\<rparr>,
      \<lparr>val = 3, grad = 0, backward_edges = []\<rparr>,
      \<lparr>val = 5, grad = 0, backward_edges =
         [\<lparr>input = 0, grad_fn = Grad_times 2 1\<rparr>, \<lparr>input = 1, grad_fn = Grad_times 2 1\<rparr>]\<rparr>,
      \<lparr>val = 10, grad = 0, backward_edges =
         [\<lparr>input = 2, grad_fn = Grad_times_val 3 0\<rparr>,
          \<lparr>input = 0, grad_fn = Grad_times_val 3 2\<rparr>]\<rparr>]"

text \<open>The graph \<open>f = x * y\<close> with \<open>x = 2\<close> and \<open>y = 3\<close> at addresses 0 to 2, with the
  gradients of the three nodes as parameters.\<close>

definition product_graph :: "real \<Rightarrow> real \<Rightarrow> real \<Rightarrow> heap" where
  "product_graph gx gy gf =
     [\<lparr>val = 2, grad = gx, backward_edges = []\<rparr>,
      \<lparr>val = 3, grad = gy, backward_edges = []\<rparr>,
      \<lparr>val = 6, grad = gf, backward_edges =
         [\<lparr>input = 0, grad_fn = Grad_times_val 2 1\<rparr>,
          \<lparr>input = 1, grad_fn = Grad_times_val 2 0\<rparr>]\<rparr>]"

text \<open>A leaf shared by two expressions: \<open>x = 2\<close> at address 0, \<open>g = - x\<close> at address 1,
  \<open>y = 3\<close> at address 2 and \<open>f = x * y\<close> at address 3, with the four gradients as
  parameters.\<close>

definition shared_leaf_graph :: "real \<Rightarrow> real \<Rightarrow> real \<Rightarrow> real \<Rightarrow> heap" where
  "shared_leaf_graph gx gg gy gf =
     [\<lparr>val = 2, grad = gx, backward_edges = []\<rparr>,
      \<lparr>val = - 2, grad = gg, backward_edges = [\<lparr>input = 0, grad_fn = Grad_times 1 (- 1)\<rparr>]\<rparr>,
      \<lparr>val = 3, grad = gy, backward_edges = []\<rparr>,
      \<lparr>val = 6, grad = gf, backward_edges =
         [\<lparr>input = 0, grad_fn = Grad_times_val 3 2\<rparr>,
          \<lparr>input = 2, grad_fn = Grad_times_val 3 0\<rparr>]\<rparr>]"


section \<open>Loops over vectors\<close>

lemma for_each_invariant:
  assumes "for_each f xs s = Some s'" and "P s"
    and "\<And>x t t'. x \<in> set xs \<Longrightarrow> P t \<Longrightarrow> f x t = Some t' \<Longrightarrow> P t'"
  shows "P s'"
  using assms
proof (induction xs arbitrary: s)
  case Nil
  then show ?case by simp
next
  case (Cons x xs)
  from Cons.prems(1) obtain t where t: "f x s = Some t" and rest: "for_each f xs t = Some s'"
    by (auto split: option.splits)
  have pt: "P t" using Cons.prems(2) t Cons.prems(3) [of x s t] by simp
  show ?case by (rule Cons.IH [OF rest pt]) (rule Cons.prems(3), auto)
qed

lemma for_each_establish:
  assumes "for_each f xs s = Some s'" and "P s"
    and step: "\<And>x t t'. x \<in> set xs \<Longrightarrow> P t \<Longrightarrow> f x t = Some t' \<Longrightarrow> P t' \<and> Q x t'"
    and mono: "\<And>y x t t'. x \<in> set xs \<Longrightarrow> P t \<Longrightarrow> f x t = Some t' \<Longrightarrow> Q y t \<Longrightarrow> Q y t'"
  shows "P s' \<and> (\<forall>y. Q y s \<longrightarrow> Q y s') \<and> (\<forall>x \<in> set xs. Q x s')"
  using assms
proof (induction xs arbitrary: s)
  case Nil
  then show ?case by simp
next
  case (Cons x xs)
  from Cons.prems(1) obtain t where t: "f x s = Some t" and rest: "for_each f xs t = Some s'"
    by (auto split: option.splits)
  have pt: "P t" and qt: "Q x t"
    using Cons.prems(3) [of x s t] Cons.prems(2) t by simp_all
  have ih: "P s' \<and> (\<forall>y. Q y t \<longrightarrow> Q y s') \<and> (\<forall>x \<in> set xs. Q x s')"
  proof (rule Cons.IH [OF rest pt])
    fix y ta ta' assume "y \<in> set xs" "P ta" "f y ta = Some ta'"
    then show "P ta' \<and> Q y ta'" using Cons.prems(3) [of y ta ta'] by simp
  next
    fix y z ta ta' assume "z \<in> set xs" "P ta" "f z ta = Some ta'" "Q y ta"
    then show "Q y ta'" using Cons.prems(4) [of z ta ta' y] by simp
  qed
  have "\<forall>y. Q y s \<longrightarrow> Q y t"
    using Cons.prems(4) [of x s t] Cons.prems(2) t by simp
  then show ?case using ih qt by auto
qed

lemma for_each_total:
  assumes "P s"
    and "\<And>x t. x \<in> set xs \<Longrightarrow> P t \<Longrightarrow> \<exists>t'. f x t = Some t' \<and> P t'"
  shows "\<exists>s'. for_each f xs s = Some s' \<and> P s'"
  using assms
proof (induction xs arbitrary: s)
  case Nil
  then show ?case by simp
next
  case (Cons x xs)
  from Cons.prems(2) [of x s] Cons.prems(1) obtain t where t: "f x s = Some t" and pt: "P t"
    by auto
  have "\<exists>s'. for_each f xs t = Some s' \<and> P s'"
    by (rule Cons.IH [OF pt]) (rule Cons.prems(2), auto)
  then show ?case using t by simp
qed

lemma for_each_cong:
  "(\<And>x s. x \<in> set xs \<Longrightarrow> f x s = g x s) \<Longrightarrow> for_each f xs s = for_each g xs s"
  by (induction xs arbitrary: s) (auto split: option.splits)

section \<open>Positions in a list\<close>

lemma strictly_before_append:
  "strictly_before (xs @ ys) x y \<longleftrightarrow>
     strictly_before xs x y \<or> strictly_before ys x y \<or> (x \<in> set xs \<and> y \<in> set ys)"
  by (induction xs) auto

lemma strictly_before_in_set: "strictly_before xs x y \<Longrightarrow> x \<in> set xs \<and> y \<in> set xs"
  by (induction xs) auto

lemma strictly_before_rev: "strictly_before (rev xs) x y \<longleftrightarrow> strictly_before xs y x"
  by (induction xs) (auto simp: strictly_before_append dest: strictly_before_in_set)

lemma strictly_before_distinct:
  "distinct xs \<Longrightarrow> strictly_before xs x y \<Longrightarrow> x \<noteq> y \<and> \<not> strictly_before xs y x"
  by (induction xs) (auto dest: strictly_before_in_set)

lemma strictly_before_index:
  "strictly_before xs x y \<longleftrightarrow> (\<exists>i j. i < j \<and> j < length xs \<and> xs ! i = x \<and> xs ! j = y)"
proof (induction xs)
  case Nil
  then show ?case by simp
next
  case (Cons z zs)
  show ?case
  proof
    assume "strictly_before (z # zs) x y"
    then consider "z = x" "y \<in> set zs" | "strictly_before zs x y" by auto
    then show "\<exists>i j. i < j \<and> j < length (z # zs) \<and> (z # zs) ! i = x \<and> (z # zs) ! j = y"
    proof cases
      case 1
      then obtain k where "k < length zs" "zs ! k = y" by (auto simp: in_set_conv_nth)
      then have "0 < Suc k \<and> Suc k < length (z # zs) \<and> (z # zs) ! 0 = x \<and> (z # zs) ! Suc k = y"
        using 1 by simp
      then show ?thesis by blast
    next
      case 2
      then obtain i j where "i < j" "j < length zs" "zs ! i = x" "zs ! j = y"
        using Cons.IH by auto
      then have "Suc i < Suc j \<and> Suc j < length (z # zs) \<and> (z # zs) ! Suc i = x
                 \<and> (z # zs) ! Suc j = y"
        by simp
      then show ?thesis by blast
    qed
  next
    assume "\<exists>i j. i < j \<and> j < length (z # zs) \<and> (z # zs) ! i = x \<and> (z # zs) ! j = y"
    then obtain i j where ij: "i < j" "j < length (z # zs)" "(z # zs) ! i = x" "(z # zs) ! j = y"
      by blast
    then obtain j' where j': "j = Suc j'" by (cases j) auto
    show "strictly_before (z # zs) x y"
    proof (cases i)
      case 0
      then show ?thesis using ij j' by auto
    next
      case (Suc i')
      then have "i' < j' \<and> j' < length zs \<and> zs ! i' = x \<and> zs ! j' = y"
        using ij j' by simp
      then have "strictly_before zs x y" using Cons.IH by blast
      then show ?thesis by simp
    qed
  qed
qed

lemma count_list_distinct:
  "distinct xs \<Longrightarrow> count_list xs q = (if q \<in> set xs then 1 else 0)"
  by (induction xs) auto

lemma all_enumerate:
  "(\<forall>(c, v) \<in> set (enumerate 0 h). P c v) \<longleftrightarrow> (\<forall>c < length h. P c (h ! c))"
proof
  assume l: "\<forall>(c, v) \<in> set (enumerate 0 h). P c v"
  show "\<forall>c < length h. P c (h ! c)"
  proof (intro allI impI)
    fix c assume "c < length h"
    then have "(c, h ! c) \<in> set (enumerate 0 h)" by (simp add: in_set_enumerate_eq)
    with l show "P c (h ! c)" by blast
  qed
next
  assume "\<forall>c < length h. P c (h ! c)"
  then show "\<forall>(c, v) \<in> set (enumerate 0 h). P c v"
    by (auto simp: in_set_enumerate_eq)
qed

section \<open>What the two traversals never write\<close>

lemma shape_length: "shape h' = shape h \<Longrightarrow> length h' = length h"
  unfolding shape_def by (rule map_eq_imp_length_eq)

lemma shape_nth:
  assumes "shape h' = shape h" and "p < length h"
  shows "val (h' ! p) = val (h ! p) \<and> backward_edges (h' ! p) = backward_edges (h ! p)"
proof -
  have len: "length h' = length h" using assms(1) by (rule shape_length)
  have "shape h' ! p = shape h ! p" using assms(1) by simp
  then have "(h' ! p)\<lparr>grad := 0\<rparr> = (h ! p)\<lparr>grad := 0\<rparr>"
    using assms(2) len by (simp add: shape_def)
  then show ?thesis
    by (metis Var.select_convs(1,3) Var.surjective Var.update_convs(2))
qed

lemma shape_update_grad:
  "p < length h \<Longrightarrow> shape (h[p := (h ! p)\<lparr>grad := g\<rparr>]) = shape h"
  by (simp add: shape_def map_update list_update_same_conv)

lemma accumulate_shape: "accumulate e h = Some h' \<Longrightarrow> shape h' = shape h"
  by (auto simp: accumulate_def deref_def shape_update_grad split: Option.bind_splits if_splits)

lemma propagate_shape:
  assumes "propagate p h = Some h'"
  shows "shape h' = shape h"
proof -
  from assms obtain v :: Var where "for_each accumulate (backward_edges v) h = Some h'"
    by (auto simp: propagate_def split: Option.bind_splits)
  then show ?thesis
    by (rule for_each_invariant [where P = "\<lambda>t. shape t = shape h"])
      (simp_all add: accumulate_shape)
qed

lemma backward_shape:
  assumes "backward n h p = Some h'"
  shows "shape h' = shape h"
proof -
  from assms obtain order where p: "p < length h"
    and loop: "for_each propagate (rev order) (h[p := (h ! p)\<lparr>grad := 1\<rparr>]) = Some h'"
    by (auto simp: backward_def deref_def split: Option.bind_splits if_splits)
  from loop show ?thesis
    by (rule for_each_invariant [where P = "\<lambda>t. shape t = shape h"])
      (simp_all add: shape_update_grad p propagate_shape)
qed

lemma zero_grad_helper_shape:
  "zero_grad_helper n p (h, vis) = Some (h', vis') \<Longrightarrow> shape h' = shape h"
proof (induction n arbitrary: p h vis h' vis')
  case 0
  then show ?case by simp
next
  case (Suc n)
  show ?case
  proof (cases "p \<in> vis")
    case True
    then show ?thesis using Suc.prems by simp
  next
    case False
    then have p: "p < length h"
      and loop: "for_each (\<lambda>edge. zero_grad_helper n (input edge)) (backward_edges (h ! p))
              (h[p := (h ! p)\<lparr>grad := 0\<rparr>], insert p vis) = Some (h', vis')"
      using Suc.prems by (auto simp: deref_def split: if_splits option.splits)
    have "shape (fst (h', vis')) = shape h"
      using loop
    proof (rule for_each_invariant [where P = "\<lambda>s. shape (fst s) = shape h"])
      show "shape (fst (h[p := (h ! p)\<lparr>grad := 0\<rparr>], insert p vis)) = shape h"
        using p by (simp add: shape_update_grad)
    next
      fix x :: BackwardEdge and t t' :: "heap \<times> addr set"
      assume "shape (fst t) = shape h" "zero_grad_helper n (input x) t = Some t'"
      then show "shape (fst t') = shape h"
        using Suc.IH [of "input x" "fst t" "snd t" "fst t'" "snd t'"] by simp
    qed
    then show ?thesis by simp
  qed
qed

lemma zero_grad_shape: "zero_grad n h p = Some h' \<Longrightarrow> shape h' = shape h"
  unfolding zero_grad_def by (auto dest: zero_grad_helper_shape)

section \<open>The builders\<close>

lemmas builder_defs =
  leaf_def new_Var_def add_edge_def deref_def op_add_def op_sub_def op_mul_def op_div_def
  op_neg_def op_pow_def op_sin_def op_cos_def op_exp_def op_log_def

lemma build_appends: "build h b = Some (h', r) \<Longrightarrow> r = length h \<and> (\<exists>v. h' = h @ [v])"
  by (cases b) (auto simp: builder_defs split: Option.bind_splits if_splits)

lemma build_operands_valid:
  "build h b = Some (h', r) \<Longrightarrow> a \<in> set (operand_args b) \<Longrightarrow> a < length h"
  by (cases b) (auto simp: builder_defs split: Option.bind_splits if_splits)

lemma build_total:
  "\<forall>a \<in> set (operand_args b). a < length h \<Longrightarrow> \<exists>h' r. build h b = Some (h', r)"
  by (cases b) (simp_all add: builder_defs)

lemma build_new_node:
  "build h b = Some (h', r) \<Longrightarrow>
   \<exists>v. h' = h @ [v] \<and>
       (\<forall>e \<in> set (backward_edges v).
          input e < length h \<and> (\<forall>q \<in> set (captured (grad_fn e)). q \<le> length h))"
  by (cases b) (auto simp: builder_defs split: Option.bind_splits if_splits)

text \<open>
  Claim C6. Every builder (\<open>add\<close>, \<open>sub\<close>, \<open>mul\<close>, \<open>div\<close>, \<open>neg\<close>, \<open>pow\<close>, \<open>sin\<close>,
  \<open>cos\<close>, \<open>exp\<close>, \<open>log\<close>) that returns leaves every node that existed before the
  call as it was, in particular the value, the gradient and the edge list of each operand
  passed in; the only change to the heap is the new result node.
\<close>

theorem builder_pure:
  assumes "build h b = Some (h', r)"
  shows "r = length h \<and> length h' = Suc (length h) \<and>
         (\<forall>p < length h. h' ! p = h ! p) \<and>
         (\<forall>a \<in> set (operand_args b). a < length h \<and> val (h' ! a) = val (h ! a) \<and>
             grad (h' ! a) = grad (h ! a) \<and>
             backward_edges (h' ! a) = backward_edges (h ! a))"
proof -
  from build_appends [OF assms] obtain v where r: "r = length h" and h': "h' = h @ [v]"
    by blast
  have same: "\<forall>p < length h. h' ! p = h ! p"
    using h' by (simp add: nth_append)
  moreover have "\<forall>a \<in> set (operand_args b). a < length h"
    using build_operands_valid [OF assms] by blast
  ultimately show ?thesis using r h' by simp
qed

theorem builder_pure_witness:
  "build [\<lparr>val = 2, grad = 5, backward_edges = []\<rparr>, \<lparr>val = 3, grad = 0, backward_edges = []\<rparr>]
     (Mul 0 1)
   = Some ([\<lparr>val = 2, grad = 5, backward_edges = []\<rparr>, \<lparr>val = 3, grad = 0, backward_edges = []\<rparr>,
            \<lparr>val = 6, grad = 0, backward_edges =
               [\<lparr>input = 0, grad_fn = Grad_times_val 2 1\<rparr>,
                \<lparr>input = 1, grad_fn = Grad_times_val 2 0\<rparr>]\<rparr>], 2)
   \<and> (2::nat) = length [\<lparr>val = 2, grad = 5, backward_edges = []\<rparr>,
                         \<lparr>val = 3, grad = 0, backward_edges = []\<rparr>]"
proof -
  have b: "build [\<lparr>val = 2, grad = 5, backward_edges = []\<rparr>, \<lparr>val = 3, grad = 0, backward_edges = []\<rparr>]
     (Mul 0 1)
   = Some ([\<lparr>val = 2, grad = 5, backward_edges = []\<rparr>, \<lparr>val = 3, grad = 0, backward_edges = []\<rparr>,
            \<lparr>val = 6, grad = 0, backward_edges =
               [\<lparr>input = 0, grad_fn = Grad_times_val 2 1\<rparr>,
                \<lparr>input = 1, grad_fn = Grad_times_val 2 0\<rparr>]\<rparr>], 2)"
    by (simp add: builder_defs)
  from builder_pure [OF b] b show ?thesis by simp
qed

section \<open>Values are immutable\<close>

lemmas backward_defs = backward_def propagate_def accumulate_def

lemma exec_val:
  assumes "exec n c t = Some t'"
  shows "length t \<le> length t' \<and> (\<forall>p < length t. val (t' ! p) = val (t ! p))"
proof (cases c)
  case (Leaf v)
  then show ?thesis using assms by (auto simp: leaf_def new_Var_def nth_append)
next
  case (Build b)
  then obtain r where "build t b = Some (t', r)" using assms by auto
  from build_appends [OF this] show ?thesis by (auto simp: nth_append)
next
  case (Backward p)
  then have sh: "shape t' = shape t" using assms by (simp add: backward_shape)
  show ?thesis using shape_length [OF sh] shape_nth [OF sh] by simp
next
  case (Zero_grad p)
  then have sh: "shape t' = shape t" using assms by (simp add: zero_grad_shape)
  show ?thesis using shape_length [OF sh] shape_nth [OF sh] by simp
qed

text \<open>
  Claim C7. The value of a node never changes after the node is constructed: no sequence
  of public calls (creating leaves, builders, \<open>backward\<close>, \<open>zero_grad\<close>) changes the value
  of a node that existed before it, and the node stays in the heap.
\<close>

theorem value_immutable:
  assumes "run n cmds h = Some h'" and "p < length h"
  shows "p < length h' \<and> val (h' ! p) = val (h ! p)"
proof -
  have "length h \<le> length h' \<and> (\<forall>p < length h. val (h' ! p) = val (h ! p))"
    using assms(1) unfolding run_def
  proof (rule for_each_invariant
      [where P = "\<lambda>t. length h \<le> length t \<and> (\<forall>p < length h. val (t ! p) = val (h ! p))"])
    show "length h \<le> length h \<and> (\<forall>p<length h. val (h ! p) = val (h ! p))" by simp
  next
    fix c t t'
    assume inv: "length h \<le> length t \<and> (\<forall>p<length h. val (t ! p) = val (h ! p))"
      and step: "exec n c t = Some t'"
    from exec_val [OF step] inv
    show "length h \<le> length t' \<and> (\<forall>p<length h. val (t' ! p) = val (h ! p))"
      by auto
  qed
  then show ?thesis using assms(2) by auto
qed

theorem value_immutable_witness:
  "run 3 [Leaf 3, Build (Mul 0 1), Backward 2, Build (Neg 2), Zero_grad 3, Backward 3]
        [\<lparr>val = 2, grad = 5, backward_edges = []\<rparr>]
   = Some [\<lparr>val = 2, grad = - 3, backward_edges = []\<rparr>,
           \<lparr>val = 3, grad = - 2, backward_edges = []\<rparr>,
           \<lparr>val = 6, grad = - 1, backward_edges =
              [\<lparr>input = 0, grad_fn = Grad_times_val 2 1\<rparr>,
               \<lparr>input = 1, grad_fn = Grad_times_val 2 0\<rparr>]\<rparr>,
           \<lparr>val = - 6, grad = 1, backward_edges =
              [\<lparr>input = 2, grad_fn = Grad_times 3 (- 1)\<rparr>]\<rparr>]
   \<and> (0::nat) < length [\<lparr>val = 2, grad = 5, backward_edges = []\<rparr>]
   \<and> val ([\<lparr>val = 2, grad = - 3, backward_edges = []\<rparr>,
           \<lparr>val = 3, grad = - 2, backward_edges = []\<rparr>,
           \<lparr>val = 6, grad = - 1, backward_edges =
              [\<lparr>input = 0, grad_fn = Grad_times_val 2 1\<rparr>,
               \<lparr>input = 1, grad_fn = Grad_times_val 2 0\<rparr>]\<rparr>,
           \<lparr>val = - 6, grad = 1, backward_edges =
              [\<lparr>input = 2, grad_fn = Grad_times 3 (- 1)\<rparr>]\<rparr>] ! 0) = 2"
proof -
  have r: "run 3 [Leaf 3, Build (Mul 0 1), Backward 2, Build (Neg 2), Zero_grad 3, Backward 3]
        [\<lparr>val = 2, grad = 5, backward_edges = []\<rparr>]
   = Some [\<lparr>val = 2, grad = - 3, backward_edges = []\<rparr>,
           \<lparr>val = 3, grad = - 2, backward_edges = []\<rparr>,
           \<lparr>val = 6, grad = - 1, backward_edges =
              [\<lparr>input = 0, grad_fn = Grad_times_val 2 1\<rparr>,
               \<lparr>input = 1, grad_fn = Grad_times_val 2 0\<rparr>]\<rparr>,
           \<lparr>val = - 6, grad = 1, backward_edges =
              [\<lparr>input = 2, grad_fn = Grad_times 3 (- 1)\<rparr>]\<rparr>]"
    by (simp add: run_def builder_defs backward_defs zero_grad_def numeral_3_eq_3)
  from value_immutable [OF r, of 0] r show ?thesis by simp
qed

section \<open>The graph of a heap\<close>

lemma operands_shape:
  "shape h' = shape h \<Longrightarrow> p < length h \<Longrightarrow> operands h' p = operands h p"
  using shape_nth [of h' h p] by (simp add: operands_def)

lemma consumes_shape:
  assumes "shape h' = shape h"
  shows "consumes h' = consumes h"
  using operands_shape [OF assms] shape_length [OF assms]
  by (auto simp: consumes_def)

lemma reachable_shape: "shape h' = shape h \<Longrightarrow> reachable h' r = reachable h r"
  using consumes_shape [of h' h] by (simp add: reachable_def)

lemma acyclic_by_shape: "shape h' = shape h \<Longrightarrow> acyclic_by rank h' = acyclic_by rank h"
  using consumes_shape [of h' h] by (simp add: acyclic_by_def)

lemma acyclic_by_nth:
  "acyclic_by rank h \<longleftrightarrow>
     (\<forall>c < length h. \<forall>e \<in> set (backward_edges (h ! c)). rank (input e) < rank c)"
  by (auto simp: acyclic_by_def consumes_def operands_def)

lemma acyclic_by_enumerate:
  "acyclic_by rank h \<longleftrightarrow>
     (\<forall>(c, v) \<in> set (enumerate 0 h). \<forall>e \<in> set (backward_edges v). rank (input e) < rank c)"
  unfolding all_enumerate by (auto simp: acyclic_by_def consumes_def operands_def)

lemma pointers_valid_nth:
  "pointers_valid h \<longleftrightarrow>
     (\<forall>p < length h. \<forall>e \<in> set (backward_edges (h ! p)).
        input e < length h \<and> (\<forall>q \<in> set (captured (grad_fn e)). q < length h))"
  unfolding pointers_valid_def by (metis in_set_conv_nth)

lemma pointers_valid_targets: "pointers_valid h \<Longrightarrow> targets_valid h"
  by (auto simp: pointers_valid_nth targets_valid_def consumes_def operands_def)

lemma pointers_valid_shape:
  assumes "shape h' = shape h"
  shows "pointers_valid h' = pointers_valid h"
  using shape_nth [OF assms] shape_length [OF assms]
  by (simp add: pointers_valid_nth)

lemma reachable_refl: "r \<in> reachable h r"
  by (simp add: reachable_def)

lemma reachable_operand:
  "p < length h \<Longrightarrow> e \<in> set (backward_edges (h ! p)) \<Longrightarrow> (p, input e) \<in> consumes h"
  by (simp add: consumes_def operands_def)

lemma reachable_step:
  "(p, c) \<in> consumes h \<Longrightarrow> reachable h c \<subseteq> reachable h p"
  unfolding reachable_def by (auto intro: converse_rtrancl_into_rtrancl)

lemma reachable_closed:
  "q \<in> reachable h r \<Longrightarrow> (q, m) \<in> consumes h \<Longrightarrow> m \<in> reachable h r"
  unfolding reachable_def by (auto intro: rtrancl_into_rtrancl)

lemma reachable_least:
  assumes "r \<in> S" and "\<And>q m. q \<in> S \<Longrightarrow> (q, m) \<in> consumes h \<Longrightarrow> m \<in> S"
  shows "reachable h r \<subseteq> S"
proof
  fix x assume "x \<in> reachable h r"
  then have "(r, x) \<in> (consumes h)\<^sup>*" by (simp add: reachable_def)
  then show "x \<in> S"
    by (induction rule: rtrancl_induct) (auto intro: assms)
qed

section \<open>Heaps built through the public interface\<close>

lemma well_formed_snoc:
  assumes "pointers_valid h" and "acyclic_by (\<lambda>p. p) h"
    and new: "\<forall>e \<in> set (backward_edges v).
          input e < length h \<and> (\<forall>q \<in> set (captured (grad_fn e)). q \<le> length h)"
  shows "pointers_valid (h @ [v]) \<and> acyclic_by (\<lambda>p. p) (h @ [v])"
proof -
  have "input e < length (h @ [v]) \<and> (\<forall>q \<in> set (captured (grad_fn e)). q < length (h @ [v]))
        \<and> input e < c"
    if c: "c < length (h @ [v])" and e: "e \<in> set (backward_edges ((h @ [v]) ! c))" for c e
  proof (cases "c < length h")
    case True
    then have "e \<in> set (backward_edges (h ! c))" using e by (simp add: nth_append)
    then have "input e < length h \<and> (\<forall>q \<in> set (captured (grad_fn e)). q < length h)
               \<and> input e < c"
      using assms(1,2) True by (simp add: pointers_valid_nth acyclic_by_nth)
    then show ?thesis by auto
  next
    case False
    then have "c = length h" using c by simp
    then have "e \<in> set (backward_edges v)" using e by simp
    then show ?thesis using new \<open>c = length h\<close> by (auto simp: less_Suc_eq_le)
  qed
  then show ?thesis
    unfolding pointers_valid_nth acyclic_by_nth by blast
qed

lemma exec_well_formed:
  assumes "exec n c h = Some h'" and wf: "pointers_valid h \<and> acyclic_by (\<lambda>p. p) h"
  shows "pointers_valid h' \<and> acyclic_by (\<lambda>p. p) h'"
proof (cases c)
  case (Leaf v)
  then have "h' = h @ [\<lparr>val = v, grad = 0, backward_edges = []\<rparr>]"
    using assms(1) by (auto simp: leaf_def new_Var_def)
  then show ?thesis using well_formed_snoc [of h "\<lparr>val = v, grad = 0, backward_edges = []\<rparr>"] wf
    by simp
next
  case (Build b)
  then obtain r where "build h b = Some (h', r)" using assms(1) by auto
  from build_new_node [OF this] show ?thesis using well_formed_snoc wf by blast
next
  case (Backward p)
  then have sh: "shape h' = shape h" using assms(1) by (simp add: backward_shape)
  show ?thesis using wf pointers_valid_shape [OF sh] acyclic_by_shape [OF sh] by simp
next
  case (Zero_grad p)
  then have sh: "shape h' = shape h" using assms(1) by (simp add: zero_grad_shape)
  show ?thesis using wf pointers_valid_shape [OF sh] acyclic_by_shape [OF sh] by simp
qed

lemma built_heap_well_formed:
  assumes "run n cmds [] = Some h"
  shows "pointers_valid h \<and> acyclic_by (\<lambda>p. p) h"
  using assms unfolding run_def
proof (rule for_each_invariant [where P = "\<lambda>t. pointers_valid t \<and> acyclic_by (\<lambda>p. p) t"])
  show "pointers_valid [] \<and> acyclic_by (\<lambda>p. p) []"
    by (simp add: pointers_valid_def acyclic_by_nth)
next
  fix c t t'
  assume "pointers_valid t \<and> acyclic_by (\<lambda>p. p) t" "exec n c t = Some t'"
  then show "pointers_valid t' \<and> acyclic_by (\<lambda>p. p) t'"
    using exec_well_formed by blast
qed

section \<open>The topological order\<close>

lemma post_ordered_snoc:
  assumes "post_ordered h order" and "p < length h" and "operands h p \<subseteq> set order"
  shows "post_ordered h (order @ [p])"
  using assms unfolding post_ordered_def
  by (auto simp: strictly_before_append)

lemma topo_sort_step:
  assumes acyc: "acyclic_by rank h"
  shows "topo_sort n h p (ord, vis) = Some (ord', vis') \<Longrightarrow>
         set ord \<subseteq> vis \<Longrightarrow> distinct ord \<Longrightarrow> post_ordered h ord \<Longrightarrow>
         (\<forall>q \<in> vis - set ord. rank p < rank q) \<Longrightarrow>
         \<exists>new. ord' = ord @ new \<and> vis' = vis \<union> set new \<and> distinct new \<and>
               set new \<inter> vis = {} \<and> post_ordered h ord' \<and> p \<in> set ord' \<and>
               set new \<subseteq> reachable h p"
proof (induction n arbitrary: p ord vis ord' vis')
  case 0
  then show ?case by simp
next
  case (Suc n)
  show ?case
  proof (cases "p \<in> vis")
    case True
    then have same: "ord' = ord" "vis' = vis" using Suc.prems(1) by simp_all
    have "p \<in> set ord" using True Suc.prems(5) by auto
    then show ?thesis using same Suc.prems(4) by simp
  next
    case False
    let ?es = "backward_edges (h ! p)"
    let ?v1 = "insert p vis"
    from False Suc.prems(1) obtain ord2 vis2 where p: "p < length h"
      and loop: "for_each (\<lambda>edge. topo_sort n h (input edge)) ?es (ord, ?v1) = Some (ord2, vis2)"
      and res: "ord' = ord2 @ [p]" "vis' = vis2"
      by (auto simp: deref_def split: if_splits option.splits)
    let ?P = "\<lambda>t::addr list \<times> addr set. \<exists>new. fst t = ord @ new \<and> snd t = ?v1 \<union> set new \<and> distinct new \<and>
                 set new \<inter> ?v1 = {} \<and> post_ordered h (fst t) \<and> set new \<subseteq> reachable h p"
    let ?Q = "\<lambda>(e::BackwardEdge) (t::addr list \<times> addr set). input e \<in> set (fst t)"
    have stepfact: "?P t' \<and> input e \<in> set (fst t') \<and> set (fst t) \<subseteq> set (fst t')"
      if e: "e \<in> set ?es" and pt: "?P t" and call: "topo_sort n h (input e) t = Some t'"
      for e t t'
    proof -
      obtain o1 v1 where t: "t = (o1, v1)" by (cases t)
      obtain o2 v2 where t': "t' = (o2, v2)" by (cases t')
      from pt t obtain new where new: "o1 = ord @ new" "v1 = ?v1 \<union> set new" "distinct new"
        "set new \<inter> ?v1 = {}" "post_ordered h o1" "set new \<subseteq> reachable h p"
        by auto
      have edge: "(p, input e) \<in> consumes h"
        using p e by (rule reachable_operand)
      then have rk: "rank (input e) < rank p"
        using acyc by (auto simp: acyclic_by_def)
      have a: "set o1 \<subseteq> v1" using new(1,2) Suc.prems(2) by auto
      have b: "distinct o1" using new(1,3,4) Suc.prems(2,3) by auto
      have c: "\<forall>q \<in> v1 - set o1. rank (input e) < rank q"
      proof
        fix q assume "q \<in> v1 - set o1"
        then have "q = p \<or> q \<in> vis - set ord" using new(1,2) by auto
        then show "rank (input e) < rank q"
          using rk Suc.prems(5) by (auto intro: less_trans)
      qed
      from Suc.IH [OF call [unfolded t t'] a b new(5) c]
      obtain new' where new': "o2 = o1 @ new'" "v2 = v1 \<union> set new'" "distinct new'"
        "set new' \<inter> v1 = {}" "post_ordered h o2" "input e \<in> set o2"
        "set new' \<subseteq> reachable h (input e)"
        by blast
      have "set new' \<subseteq> reachable h p"
        using new'(7) reachable_step [OF edge] by blast
      then have "o2 = ord @ (new @ new') \<and> v2 = ?v1 \<union> set (new @ new') \<and>
                 distinct (new @ new') \<and> set (new @ new') \<inter> ?v1 = {} \<and>
                 post_ordered h o2 \<and> set (new @ new') \<subseteq> reachable h p"
        using new new' by auto
      then have "?P t'" unfolding t' fst_conv snd_conv by blast
      then show ?thesis using new'(1,6) t t' by auto
    qed
    have "?P (ord2, vis2) \<and> (\<forall>y. ?Q y (ord, ?v1) \<longrightarrow> ?Q y (ord2, vis2))
          \<and> (\<forall>e \<in> set ?es. ?Q e (ord2, vis2))"
    proof (rule for_each_establish [OF loop, where P = ?P and Q = ?Q])
      have "fst (ord, ?v1) = ord @ [] \<and> snd (ord, ?v1) = ?v1 \<union> set [] \<and> distinct [] \<and>
            set [] \<inter> ?v1 = {} \<and> post_ordered h (fst (ord, ?v1)) \<and> set [] \<subseteq> reachable h p"
        using Suc.prems(4) by simp
      then show "?P (ord, ?v1)" by blast
    next
      fix e t t'
      assume "e \<in> set ?es" "?P t" "topo_sort n h (input e) t = Some t'"
      from stepfact [OF this] show "?P t' \<and> ?Q e t'" by simp
    next
      fix y e t t'
      assume "e \<in> set ?es" "?P t" "topo_sort n h (input e) t = Some t'" "?Q y t"
      from stepfact [OF this(1,2,3)] this(4) show "?Q y t'" by auto
    qed
    then obtain new2 where new2: "ord2 = ord @ new2" "vis2 = ?v1 \<union> set new2" "distinct new2"
      "set new2 \<inter> ?v1 = {}" "post_ordered h ord2" "set new2 \<subseteq> reachable h p"
      and ops: "\<forall>e \<in> set ?es. input e \<in> set ord2"
      by auto
    have "operands h p \<subseteq> set ord2" using ops by (auto simp: operands_def)
    from post_ordered_snoc [OF new2(5) p this]
    have po: "post_ordered h ord'" using res by simp
    have "ord' = ord @ (new2 @ [p]) \<and> vis' = vis \<union> set (new2 @ [p]) \<and>
          distinct (new2 @ [p]) \<and> set (new2 @ [p]) \<inter> vis = {} \<and> post_ordered h ord' \<and>
          p \<in> set ord' \<and> set (new2 @ [p]) \<subseteq> reachable h p"
      using new2 res po False reachable_refl [of p h] by auto
    then show ?thesis by blast
  qed
qed

lemma topo_sort_total:
  assumes acyc: "acyclic_by rank h" and valid: "targets_valid h"
  shows "p < length h \<Longrightarrow> rank p < n \<Longrightarrow> \<exists>s'. topo_sort n h p s = Some s'"
proof (induction n arbitrary: p s)
  case 0
  then show ?case by simp
next
  case (Suc n)
  obtain ord vis where s: "s = (ord, vis)" by (cases s)
  show ?case
  proof (cases "p \<in> vis")
    case True
    then show ?thesis using s by simp
  next
    case False
    have "\<exists>s'. for_each (\<lambda>edge. topo_sort n h (input edge)) (backward_edges (h ! p))
                  (ord, insert p vis) = Some s' \<and> True"
    proof (rule for_each_total [where P = "\<lambda>_. True"])
      fix e :: BackwardEdge and t :: "addr list \<times> addr set"
      assume e: "e \<in> set (backward_edges (h ! p))"
      have edge: "(p, input e) \<in> consumes h"
        using Suc.prems(1) e by (rule reachable_operand)
      then have "rank (input e) < rank p"
        using acyc by (auto simp: acyclic_by_def)
      then have "rank (input e) < n" using Suc.prems(2) by simp
      moreover have "input e < length h"
        using valid edge by (auto simp: targets_valid_def)
      ultimately show "\<exists>t'. topo_sort n h (input e) t = Some t' \<and> True"
        using Suc.IH by simp
    qed simp
    then obtain s' where "for_each (\<lambda>edge. topo_sort n h (input edge)) (backward_edges (h ! p))
                  (ord, insert p vis) = Some s'"
      by blast
    then show ?thesis using s False Suc.prems(1)
      by (cases s') (simp add: deref_def)
  qed
qed

lemma topo_sort_correct:
  assumes acyc: "acyclic_by rank h" and valid: "targets_valid h"
    and r: "r < length h" and fuel: "rank r < n"
  shows "\<exists>order. topo_sort n h r ([], {}) = Some (order, set order) \<and>
           set order = reachable h r \<and> distinct order \<and> post_ordered h order"
proof -
  from topo_sort_total [OF acyc valid r fuel] obtain order visited
    where run: "topo_sort n h r ([], {}) = Some (order, visited)"
    by (metis surj_pair)
  from topo_sort_step [OF acyc run]
  have vis: "visited = set order" and dist: "distinct order" and po: "post_ordered h order"
    and r_in: "r \<in> set order" and sub: "set order \<subseteq> reachable h r"
    by (auto simp: post_ordered_def)
  have "reachable h r \<subseteq> set order"
  proof (rule reachable_least [OF r_in])
    fix q m assume "q \<in> set order" "(q, m) \<in> consumes h"
    then have "strictly_before order m q"
      using po by (auto simp: post_ordered_def consumes_def)
    then show "m \<in> set order" by (simp add: strictly_before_in_set)
  qed
  then show ?thesis using run vis dist po sub by auto
qed

lemma topo_sort_shape:
  "shape h' = shape h \<Longrightarrow> topo_sort n h' p s = topo_sort n h p s"
proof (induction n arbitrary: p s)
  case 0
  then show ?case by simp
next
  case (Suc n)
  obtain ord vis where s: "s = (ord, vis)" by (cases s)
  have len: "length h' = length h" using Suc.prems by (rule shape_length)
  show ?case
  proof (cases "p < length h")
    case True
    have edges: "backward_edges (h' ! p) = backward_edges (h ! p)"
      using shape_nth [OF Suc.prems True] by simp
    have "for_each (\<lambda>edge. topo_sort n h' (input edge)) (backward_edges (h ! p)) t
          = for_each (\<lambda>edge. topo_sort n h (input edge)) (backward_edges (h ! p)) t" for t
      by (rule for_each_cong) (rule Suc.IH [OF Suc.prems])
    then show ?thesis using s True len edges by (simp add: deref_def)
  next
    case False
    then show ?thesis using s len by (simp add: deref_def)
  qed
qed

subsection \<open>The example graphs\<close>

lemma readme_graph_built:
  "run 0 [Leaf 2, Leaf 3, Build (Add 0 1), Build (Mul 2 0)] [] = Some readme_graph"
  by (simp add: run_def builder_defs readme_graph_def)

lemma product_graph_built:
  "run 0 [Leaf 2, Leaf 3, Build (Mul 0 1)] [] = Some (product_graph 0 0 0)"
  by (simp add: run_def builder_defs product_graph_def)

lemma readme_graph_ok:
  "acyclic_by (\<lambda>p. p) readme_graph \<and> pointers_valid readme_graph"
  by (simp add: acyclic_by_enumerate pointers_valid_def readme_graph_def)

lemma readme_graph_dag:
  "acyclic_by (\<lambda>p. p) readme_graph \<and> targets_valid readme_graph"
  using readme_graph_ok pointers_valid_targets by blast

lemma readme_graph_topo_sort:
  "topo_sort 4 readme_graph 3 ([], {}) = Some ([0, 1, 2, 3], {0, 1, 2, 3})"
  by (simp add: readme_graph_def deref_def eval_nat_numeral insert_commute)

lemma product_graph_ok:
  "acyclic_by (\<lambda>p. p) (product_graph gx gy gf) \<and> pointers_valid (product_graph gx gy gf)"
  by (simp add: acyclic_by_enumerate pointers_valid_def product_graph_def)

lemma readme_graph_consumes: "(2, 0) \<in> consumes readme_graph"
  by (simp add: consumes_def operands_def readme_graph_def)

subsection \<open>The order respects the dependencies\<close>

text \<open>
  Claim C4. For every acyclic graph whose edges target nodes of the heap and every root,
  with a recursion bound above the rank of the root, \<open>topo_sort\<close> returns a sequence in which
  every node reachable from the root occurs exactly once and no other node occurs, and
  in which every operand of a node (the target of one of its backward edges) occurs
  strictly before the node.
\<close>

theorem topo_sort_order:
  assumes "acyclic_by rank h" and "targets_valid h" and "r < length h" and "rank r < n"
  shows "\<exists>order visited. topo_sort n h r ([], {}) = Some (order, visited) \<and>
           set order = reachable h r \<and> distinct order \<and>
           (\<forall>q. count_list order q = (if q \<in> reachable h r then 1 else 0)) \<and>
           (\<forall>c \<in> set order. \<forall>m \<in> operands h c. strictly_before order m c)"
proof -
  from topo_sort_correct [OF assms] obtain order
    where run: "topo_sort n h r ([], {}) = Some (order, set order)"
      and reach: "set order = reachable h r" and dist: "distinct order"
      and po: "post_ordered h order"
    by blast
  have "\<forall>q. count_list order q = (if q \<in> reachable h r then 1 else 0)"
    using count_list_distinct [OF dist] reach by simp
  moreover have "\<forall>c \<in> set order. \<forall>m \<in> operands h c. strictly_before order m c"
    using po by (simp add: post_ordered_def)
  ultimately show ?thesis using run reach dist by blast
qed

theorem topo_sort_order_witness:
  "acyclic_by (\<lambda>p. p) readme_graph \<and> targets_valid readme_graph \<and>
   3 < length readme_graph \<and> (3::nat) < 4 \<and>
   topo_sort 4 readme_graph 3 ([], {}) = Some ([0, 1, 2, 3], {0, 1, 2, 3}) \<and>
   reachable readme_graph 3 = {0, 1, 2, 3} \<and>
   operands readme_graph 3 = {2, 0} \<and> strictly_before [0, 1, 2, 3] 2 (3::nat) \<and>
   strictly_before [0, 1, 2, 3] 0 (3::nat)"
proof -
  have len: "3 < length readme_graph" by (simp add: readme_graph_def)
  from topo_sort_order [of "\<lambda>p. p" readme_graph 3 4] readme_graph_dag len
  have "set [0, 1, 2, 3] = reachable readme_graph 3"
    by (simp add: readme_graph_topo_sort)
  moreover have "operands readme_graph 3 = {2, 0}"
    by (simp add: operands_def readme_graph_def)
  ultimately show ?thesis
    using readme_graph_dag len readme_graph_topo_sort by auto
qed

text \<open>
  Claim C3, as stated, fails: in the order that \<open>topo_sort\<close> produces a consumer does
  not occur before the node it consumes. In the README graph the node at address 2
  (\<open>x + y\<close>) consumes the node at address 0 (\<open>x\<close>), both are reachable from the root at
  address 3, and the order is \<open>[0, 1, 2, 3]\<close>.
\<close>

theorem consumer_before_counterexample:
  "run 0 [Leaf 2, Leaf 3, Build (Add 0 1), Build (Mul 2 0)] [] = Some readme_graph \<and>
   topo_sort 4 readme_graph 3 ([], {}) = Some ([0, 1, 2, 3], {0, 1, 2, 3}) \<and>
   (2, 0) \<in> consumes readme_graph \<and>
   0 \<in> reachable readme_graph 3 \<and> 2 \<in> reachable readme_graph 3 \<and>
   \<not> strictly_before [0, 1, 2, 3] (2::nat) 0"
proof -
  have c32: "(3, 2) \<in> consumes readme_graph"
    by (simp add: consumes_def operands_def readme_graph_def)
  have r2: "2 \<in> reachable readme_graph 3"
    using reachable_closed [OF reachable_refl c32] .
  have r0: "0 \<in> reachable readme_graph 3"
    using reachable_closed [OF r2 readme_graph_consumes] .
  show ?thesis
    using readme_graph_built readme_graph_topo_sort readme_graph_consumes r0 r2 by simp
qed

text \<open>
  Claim C3, amended. For every acyclic graph whose edges target nodes of the heap, every
  node \<open>nd\<close> reachable from the root and every consumer \<open>c\<close> of \<open>nd\<close> reachable from the root: \<open>c\<close>
  occurs strictly after \<open>nd\<close> (and not before it) in the order that \<open>topo_sort\<close>
  produces, and strictly before \<open>nd\<close> in the reversed order, which is the order whose
  nodes \<open>backward\<close> processes after seeding the root.
\<close>

theorem consumer_after_in_post_order:
  assumes "acyclic_by rank h" and "targets_valid h" and "r < length h" and "rank r < n"
  shows "\<exists>order visited. topo_sort n h r ([], {}) = Some (order, visited) \<and>
           backward n h r = for_each propagate (rev order) (h[r := (h ! r)\<lparr>grad := 1\<rparr>]) \<and>
           (\<forall>nd \<in> reachable h r. \<forall>c \<in> reachable h r. (c, nd) \<in> consumes h \<longrightarrow>
              strictly_before order nd c \<and> \<not> strictly_before order c nd \<and>
              strictly_before (rev order) c nd \<and> \<not> strictly_before (rev order) nd c)"
proof -
  from topo_sort_correct [OF assms] obtain order
    where run: "topo_sort n h r ([], {}) = Some (order, set order)"
      and reach: "set order = reachable h r" and dist: "distinct order"
      and po: "post_ordered h order"
    by blast
  have bw: "backward n h r = for_each propagate (rev order) (h[r := (h ! r)\<lparr>grad := 1\<rparr>])"
    using run assms(3) by (simp add: backward_def deref_def)
  have "strictly_before order nd c \<and> \<not> strictly_before order c nd \<and>
        strictly_before (rev order) c nd \<and> \<not> strictly_before (rev order) nd c"
    if "c \<in> reachable h r" and "(c, nd) \<in> consumes h" for nd c
  proof -
    have "strictly_before order nd c"
      using that po reach by (auto simp: post_ordered_def consumes_def)
    then show ?thesis
      using strictly_before_distinct [OF dist] by (simp add: strictly_before_rev)
  qed
  then show ?thesis using run bw by blast
qed

theorem consumer_after_in_post_order_witness:
  "acyclic_by (\<lambda>p. p) readme_graph \<and> targets_valid readme_graph \<and>
   3 < length readme_graph \<and> (3::nat) < 4 \<and>
   topo_sort 4 readme_graph 3 ([], {}) = Some ([0, 1, 2, 3], {0, 1, 2, 3}) \<and>
   0 \<in> reachable readme_graph 3 \<and> 2 \<in> reachable readme_graph 3 \<and>
   (2, 0) \<in> consumes readme_graph \<and>
   strictly_before [0, 1, 2, 3] (0::nat) 2 \<and> strictly_before (rev [0, 1, 2, 3]) (2::nat) 0"
proof -
  have len: "3 < length readme_graph" by (simp add: readme_graph_def)
  have c32: "(3, 2) \<in> consumes readme_graph"
    by (simp add: consumes_def operands_def readme_graph_def)
  have r2: "2 \<in> reachable readme_graph 3"
    using reachable_closed [OF reachable_refl c32] .
  have r0: "0 \<in> reachable readme_graph 3"
    using reachable_closed [OF r2 readme_graph_consumes] .
  from consumer_after_in_post_order [of "\<lambda>p. p" readme_graph 3 4] readme_graph_dag len
  have "strictly_before [0, 1, 2, 3] (0::nat) 2 \<and> strictly_before (rev [0, 1, 2, 3]) (2::nat) 0"
    using r0 r2 readme_graph_consumes by (auto simp: readme_graph_topo_sort)
  then show ?thesis
    using readme_graph_dag len readme_graph_topo_sort r0 r2 readme_graph_consumes by simp
qed

section \<open>The backward pass and the reset\<close>

lemma call_grad_fn_total:
  "\<forall>q \<in> set (captured fn). q < length t \<Longrightarrow> \<exists>g. call_grad_fn t fn = Some g"
  by (cases fn) (simp_all add: deref_def)

lemma accumulate_total:
  assumes "input e < length t" and "\<forall>q \<in> set (captured (grad_fn e)). q < length t"
  shows "\<exists>t'. accumulate e t = Some t'"
proof -
  from call_grad_fn_total [OF assms(2)] obtain g where "call_grad_fn t (grad_fn e) = Some g"
    by blast
  then show ?thesis using assms(1) by (simp add: accumulate_def deref_def)
qed

lemma accumulate_frame: "accumulate e t = Some t' \<Longrightarrow> q \<noteq> input e \<Longrightarrow> t' ! q = t ! q"
  by (auto simp: accumulate_def deref_def split: Option.bind_splits if_splits)

lemma propagate_total:
  assumes valid: "pointers_valid t" and c: "c < length t"
  shows "\<exists>t'. propagate c t = Some t'"
proof -
  have "\<exists>t'. for_each accumulate (backward_edges (t ! c)) t = Some t' \<and> shape t' = shape t"
  proof (rule for_each_total [where P = "\<lambda>u. shape u = shape t"])
    fix e :: BackwardEdge and u :: heap
    assume e: "e \<in> set (backward_edges (t ! c))" and u: "shape u = shape t"
    have len: "length u = length t" using u by (rule shape_length)
    have "input e < length u \<and> (\<forall>q \<in> set (captured (grad_fn e)). q < length u)"
      using valid c e len by (simp add: pointers_valid_nth)
    then obtain u' where "accumulate e u = Some u'"
      using accumulate_total by blast
    then show "\<exists>u'. accumulate e u = Some u' \<and> shape u' = shape t"
      using accumulate_shape u by auto
  qed simp
  then show ?thesis using c by (auto simp: propagate_def deref_def)
qed

lemma propagate_frame:
  assumes "propagate c t = Some t'" and "q \<notin> operands t c"
  shows "t' ! q = t ! q"
proof -
  from assms(1) have loop: "for_each accumulate (backward_edges (t ! c)) t = Some t'"
    by (auto simp: propagate_def deref_def split: Option.bind_splits if_splits)
  show ?thesis
  proof (rule for_each_invariant [OF loop, where P = "\<lambda>u. u ! q = t ! q"])
    fix e :: BackwardEdge and u u' :: heap
    assume "e \<in> set (backward_edges (t ! c))" "u ! q = t ! q" "accumulate e u = Some u'"
    moreover from this(1) assms(2) have "q \<noteq> input e" by (auto simp: operands_def)
    ultimately show "u' ! q = t ! q" using accumulate_frame by metis
  qed simp
qed

lemma backward_correct:
  assumes acyc: "acyclic_by rank h" and valid: "pointers_valid h"
    and r: "r < length h" and fuel: "rank r < n"
  shows "\<exists>h1. backward n h r = Some h1 \<and> shape h1 = shape h \<and>
           (\<forall>q. q \<notin> reachable h r \<longrightarrow> h1 ! q = h ! q)"
proof -
  from topo_sort_correct [OF acyc pointers_valid_targets [OF valid] r fuel] obtain order
    where run: "topo_sort n h r ([], {}) = Some (order, set order)"
      and reach: "set order = reachable h r" and po: "post_ordered h order"
    by blast
  let ?h0 = "h[r := (h ! r)\<lparr>grad := 1\<rparr>]"
  let ?P = "\<lambda>u. shape u = shape h \<and> (\<forall>q. q \<notin> reachable h r \<longrightarrow> u ! q = h ! q)"
  have bw: "backward n h r = for_each propagate (rev order) ?h0"
    using run r by (simp add: backward_def deref_def)
  have "?h0 ! q = h ! q" if "q \<notin> reachable h r" for q
  proof -
    have "q \<noteq> r" using that reachable_refl [of r h] by auto
    then show ?thesis by simp
  qed
  then have p0: "?P ?h0"
    using r by (simp add: shape_update_grad)
  have "\<exists>h1. for_each propagate (rev order) ?h0 = Some h1 \<and> ?P h1"
  proof (rule for_each_total [where P = ?P, OF p0])
    fix c :: addr and u :: heap
    assume c: "c \<in> set (rev order)" and u: "?P u"
    then have sh: "shape u = shape h" by simp
    have c_len: "c < length h" using c po by (simp add: post_ordered_def)
    have c_reach: "c \<in> reachable h r" using c reach by simp
    have "pointers_valid u" using valid pointers_valid_shape [OF sh] by simp
    moreover have "c < length u" using c_len shape_length [OF sh] by simp
    ultimately obtain u' where u': "propagate c u = Some u'"
      using propagate_total by blast
    have "u' ! q = h ! q" if q: "q \<notin> reachable h r" for q
    proof -
      have "operands u c = operands h c" using operands_shape [OF sh c_len] .
      moreover have "operands h c \<subseteq> reachable h r"
        using c_reach c_len reachable_closed [of c h r] by (auto simp: consumes_def)
      ultimately have "q \<notin> operands u c" using q by auto
      from propagate_frame [OF u' this] u q show ?thesis by simp
    qed
    then show "\<exists>u'. propagate c u = Some u' \<and> ?P u'"
      using u' propagate_shape [OF u'] sh by simp
  qed
  then show ?thesis using bw by simp
qed

lemma backward_ignores_root_grad:
  assumes "r < length h"
  shows "backward n (h[r := (h ! r)\<lparr>grad := g\<rparr>]) r = backward n h r"
proof -
  have "shape (h[r := (h ! r)\<lparr>grad := g\<rparr>]) = shape h"
    using assms by (rule shape_update_grad)
  then have "topo_sort n (h[r := (h ! r)\<lparr>grad := g\<rparr>]) r ([], {}) = topo_sort n h r ([], {})"
    by (rule topo_sort_shape)
  then show ?thesis using assms by (simp add: backward_def deref_def)
qed

lemma zero_grad_helper_effect:
  "zero_grad_helper n p (h, vis) = Some (h', vis') \<Longrightarrow>
   shape h' = shape h \<and> vis \<subseteq> vis' \<and> p \<in> vis' \<and> vis' - vis \<subseteq> reachable h p \<and>
   (\<forall>q \<in> vis' - vis. q < length h \<and> grad (h' ! q) = 0 \<and> operands h q \<subseteq> vis') \<and>
   (\<forall>q. q \<notin> vis' - vis \<longrightarrow> h' ! q = h ! q)"
proof (induction n arbitrary: p h vis h' vis')
  case 0
  then show ?case by simp
next
  case (Suc n)
  show ?case
  proof (cases "p \<in> vis")
    case True
    then show ?thesis using Suc.prems by simp
  next
    case False
    let ?es = "backward_edges (h ! p)"
    let ?h0 = "h[p := (h ! p)\<lparr>grad := 0\<rparr>]"
    let ?v0 = "insert p vis"
    from False Suc.prems have p: "p < length h"
      and loop: "for_each (\<lambda>edge. zero_grad_helper n (input edge)) ?es (?h0, ?v0) = Some (h', vis')"
      by (auto simp: deref_def split: if_splits option.splits)
    let ?P = "\<lambda>s::heap \<times> addr set. shape (fst s) = shape h \<and> ?v0 \<subseteq> snd s \<and>
                 snd s - vis \<subseteq> reachable h p \<and>
                 (\<forall>q \<in> snd s - vis. q < length h \<and> grad (fst s ! q) = 0) \<and>
                 (\<forall>q \<in> snd s - ?v0. operands h q \<subseteq> snd s) \<and>
                 (\<forall>q. q \<notin> snd s - vis \<longrightarrow> fst s ! q = h ! q)"
    let ?Q = "\<lambda>(e::BackwardEdge) (s::heap \<times> addr set). input e \<in> snd s"
    have stepfact: "?P s' \<and> input e \<in> snd s' \<and> snd s \<subseteq> snd s'"
      if e: "e \<in> set ?es" and ps: "?P s" and call: "zero_grad_helper n (input e) s = Some s'"
      for e s s'
    proof -
      obtain t v where s: "s = (t, v)" by (cases s)
      obtain t' v' where s': "s' = (t', v')" by (cases s')
      from ps s have sh: "shape t = shape h" and v0: "?v0 \<subseteq> v"
        and sub: "v - vis \<subseteq> reachable h p"
        and zeroed: "\<forall>q \<in> v - vis. q < length h \<and> grad (t ! q) = 0"
        and closed: "\<forall>q \<in> v - ?v0. operands h q \<subseteq> v"
        and frame: "\<forall>q. q \<notin> v - vis \<longrightarrow> t ! q = h ! q"
        by simp_all
      from Suc.IH [OF call [unfolded s s']]
      have sh': "shape t' = shape t" and mono: "v \<subseteq> v'" and inp: "input e \<in> v'"
        and sub': "v' - v \<subseteq> reachable t (input e)"
        and zeroed': "\<forall>q \<in> v' - v. q < length t \<and> grad (t' ! q) = 0 \<and> operands t q \<subseteq> v'"
        and frame': "\<forall>q. q \<notin> v' - v \<longrightarrow> t' ! q = t ! q"
        by simp_all
      have len: "length t = length h" using sh by (rule shape_length)
      have edge: "(p, input e) \<in> consumes h" using p e by (rule reachable_operand)
      have "reachable t (input e) = reachable h (input e)" using sh by (rule reachable_shape)
      then have a: "v' - vis \<subseteq> reachable h p"
        using sub sub' reachable_step [OF edge] by auto
      have b: "\<forall>q \<in> v' - vis. q < length h \<and> grad (t' ! q) = 0"
      proof
        fix q assume q: "q \<in> v' - vis"
        show "q < length h \<and> grad (t' ! q) = 0"
        proof (cases "q \<in> v' - v")
          case True
          then show ?thesis using zeroed' len by auto
        next
          case False
          then have "q \<in> v - vis" "t' ! q = t ! q" using q frame' by auto
          then show ?thesis using zeroed by auto
        qed
      qed
      have c: "\<forall>q \<in> v' - ?v0. operands h q \<subseteq> v'"
      proof
        fix q assume q: "q \<in> v' - ?v0"
        show "operands h q \<subseteq> v'"
        proof (cases "q \<in> v' - v")
          case True
          then have "q < length h" "operands t q \<subseteq> v'" using zeroed' len by auto
          then show ?thesis using operands_shape [OF sh] by simp
        next
          case False
          then have "q \<in> v - ?v0" using q by auto
          then show ?thesis using closed mono by blast
        qed
      qed
      have d: "\<forall>q. q \<notin> v' - vis \<longrightarrow> t' ! q = h ! q"
      proof (intro allI impI)
        fix q assume q: "q \<notin> v' - vis"
        then have "q \<notin> v' - v" "q \<notin> v - vis" using mono v0 by auto
        then show "t' ! q = h ! q" using frame frame' by simp
      qed
      have "shape t' = shape h" using sh sh' by simp
      moreover have "?v0 \<subseteq> v'" using v0 mono by auto
      ultimately show ?thesis using a b c d inp mono s s' by simp
    qed
    have "?P (h', vis') \<and> (\<forall>y. ?Q y (?h0, ?v0) \<longrightarrow> ?Q y (h', vis'))
          \<and> (\<forall>e \<in> set ?es. ?Q e (h', vis'))"
    proof (rule for_each_establish [OF loop, where P = ?P and Q = ?Q])
      have eq: "?v0 - vis = {p}" using False by auto
      have "\<forall>q. q \<notin> {p} \<longrightarrow> ?h0 ! q = h ! q" by simp
      moreover have "grad (?h0 ! p) = 0" using p by simp
      ultimately show "?P (?h0, ?v0)"
        unfolding fst_conv snd_conv eq
        using p by (simp add: shape_update_grad reachable_refl)
    next
      fix e s s'
      assume "e \<in> set ?es" "?P s" "zero_grad_helper n (input e) s = Some s'"
      from stepfact [OF this] show "?P s' \<and> ?Q e s'" by simp
    next
      fix y e s s'
      assume "e \<in> set ?es" "?P s" "zero_grad_helper n (input e) s = Some s'" "?Q y s"
      from stepfact [OF this(1,2,3)] this(4) show "?Q y s'" by auto
    qed
    then have fin: "shape h' = shape h" "?v0 \<subseteq> vis'" "vis' - vis \<subseteq> reachable h p"
      "\<forall>q \<in> vis' - vis. q < length h \<and> grad (h' ! q) = 0"
      "\<forall>q \<in> vis' - ?v0. operands h q \<subseteq> vis'"
      "\<forall>q. q \<notin> vis' - vis \<longrightarrow> h' ! q = h ! q"
      and ops: "\<forall>e \<in> set ?es. input e \<in> vis'"
      by simp_all
    have "operands h p \<subseteq> vis'" using ops by (auto simp: operands_def)
    then have "\<forall>q \<in> vis' - vis. operands h q \<subseteq> vis'"
      using fin(5) by auto
    then show ?thesis using fin by auto
  qed
qed

lemma zero_grad_helper_total:
  "acyclic_by rank h \<Longrightarrow> pointers_valid h \<Longrightarrow> p < length h \<Longrightarrow> rank p < n \<Longrightarrow>
   \<exists>s'. zero_grad_helper n p (h, vis) = Some s'"
proof (induction n arbitrary: p h vis)
  case 0
  then show ?case by simp
next
  case (Suc n)
  show ?case
  proof (cases "p \<in> vis")
    case True
    then show ?thesis by simp
  next
    case False
    let ?h0 = "h[p := (h ! p)\<lparr>grad := 0\<rparr>]"
    let ?P = "\<lambda>s::heap \<times> addr set. shape (fst s) = shape h"
    have p0: "?P (?h0, insert p vis)" using Suc.prems(3) by (simp add: shape_update_grad)
    have "\<exists>s'. for_each (\<lambda>edge. zero_grad_helper n (input edge)) (backward_edges (h ! p))
                  (?h0, insert p vis) = Some s' \<and> ?P s'"
    proof (rule for_each_total [where P = ?P, OF p0])
      fix e :: BackwardEdge and s :: "heap \<times> addr set"
      assume e: "e \<in> set (backward_edges (h ! p))" and ps: "?P s"
      obtain t v where s: "s = (t, v)" by (cases s)
      have sh: "shape t = shape h" using ps s by simp
      have "(p, input e) \<in> consumes h"
        using Suc.prems(3) e by (rule reachable_operand)
      then have "rank (input e) < rank p"
        using Suc.prems(1) by (auto simp: acyclic_by_def)
      then have rk: "rank (input e) < n" using Suc.prems(4) by simp
      have "input e < length h"
        using Suc.prems(2,3) e by (simp add: pointers_valid_nth)
      then have len: "input e < length t" using shape_length [OF sh] by simp
      have "acyclic_by rank t" using Suc.prems(1) acyclic_by_shape [OF sh] by simp
      moreover have "pointers_valid t" using Suc.prems(2) pointers_valid_shape [OF sh] by simp
      ultimately obtain s' where s': "zero_grad_helper n (input e) (t, v) = Some s'"
        using Suc.IH len rk by blast
      obtain t' v' where tv: "s' = (t', v')" by (cases s')
      have "shape t' = shape t" using s' tv zero_grad_helper_shape by blast
      then show "\<exists>s'. zero_grad_helper n (input e) s = Some s' \<and> ?P s'"
        using s s' tv sh by simp
    qed
    then show ?thesis using False Suc.prems(3) by (auto simp: deref_def)
  qed
qed

lemma zero_grad_correct:
  assumes acyc: "acyclic_by rank h" and valid: "pointers_valid h"
    and r: "r < length h" and fuel: "rank r < n"
  shows "\<exists>h2. zero_grad n h r = Some h2 \<and> shape h2 = shape h \<and>
           (\<forall>q \<in> reachable h r. q < length h \<and> grad (h2 ! q) = 0) \<and>
           (\<forall>q. q \<notin> reachable h r \<longrightarrow> h2 ! q = h ! q)"
proof -
  from zero_grad_helper_total [OF assms] obtain h2 vis
    where run: "zero_grad_helper n r (h, {}) = Some (h2, vis)"
    by (metis surj_pair)
  from zero_grad_helper_effect [OF run]
  have sh: "shape h2 = shape h" and r_in: "r \<in> vis" and sub: "vis \<subseteq> reachable h r"
    and zeroed: "\<forall>q \<in> vis. q < length h \<and> grad (h2 ! q) = 0 \<and> operands h q \<subseteq> vis"
    and frame: "\<forall>q. q \<notin> vis \<longrightarrow> h2 ! q = h ! q"
    by simp_all
  have "reachable h r \<subseteq> vis"
  proof (rule reachable_least [OF r_in])
    fix q m assume "q \<in> vis" "(q, m) \<in> consumes h"
    then show "m \<in> vis" using zeroed by (auto simp: consumes_def)
  qed
  then have "vis = reachable h r" using sub by auto
  then show ?thesis using run sh zeroed frame by (simp add: zero_grad_def)
qed

lemma heap_eqI:
  assumes "shape h' = shape h" and "\<And>q. q < length h \<Longrightarrow> grad (h' ! q) = grad (h ! q)"
  shows "h' = h"
proof (rule nth_equalityI)
  show "length h' = length h" using assms(1) by (rule shape_length)
next
  fix q assume "q < length h'"
  then have q: "q < length h" using shape_length [OF assms(1)] by simp
  from shape_nth [OF assms(1) q] assms(2) [OF q] show "h' ! q = h ! q" by simp
qed

lemma product_graph_backward:
  "backward 3 (product_graph gx gy gf) 2 = Some (product_graph (gx + 3) (gy + 2) 1)"
  by (simp add: product_graph_def backward_defs deref_def eval_nat_numeral)

lemma product_graph_zero_grad:
  "zero_grad 3 (product_graph gx gy gf) 2 = Some (product_graph 0 0 0)"
  by (simp add: product_graph_def zero_grad_def deref_def eval_nat_numeral)

lemma product_graph_reachable: "reachable (product_graph gx gy gf) 2 = {0, 1, 2}"
proof -
  have "2 < length (product_graph gx gy gf)" by (simp add: product_graph_def)
  from topo_sort_correct [of "\<lambda>p. p" "product_graph gx gy gf" 2 3, OF _ _ this]
    product_graph_ok [of gx gy gf] pointers_valid_targets [of "product_graph gx gy gf"]
  obtain order where "topo_sort 3 (product_graph gx gy gf) 2 ([], {}) = Some (order, set order)"
    and "set order = reachable (product_graph gx gy gf) 2"
    by auto
  moreover have "topo_sort 3 (product_graph gx gy gf) 2 ([], {}) = Some ([0, 1, 2], {0, 1, 2})"
    by (simp add: product_graph_def deref_def eval_nat_numeral insert_commute)
  ultimately show ?thesis by auto
qed

lemma shared_leaf_graph_built:
  "run 2 [Leaf 2, Build (Neg 0), Backward 1, Leaf 3, Build (Mul 0 2)] []
   = Some (shared_leaf_graph (- 1) 1 0 0)"
  by (simp add: run_def builder_defs backward_defs shared_leaf_graph_def eval_nat_numeral)

lemma shared_leaf_graph_backward:
  "backward 2 (shared_leaf_graph gx gg gy gf) 3 = Some (shared_leaf_graph (gx + 3) gg (gy + 2) 1)"
  by (simp add: shared_leaf_graph_def backward_defs deref_def eval_nat_numeral)

lemma shared_leaf_graph_zero_grad:
  "zero_grad 2 (shared_leaf_graph gx gg gy gf) 3 = Some (shared_leaf_graph 0 gg 0 0)"
  by (simp add: shared_leaf_graph_def zero_grad_def deref_def eval_nat_numeral)

lemma shared_leaf_graph_reachable: "0 \<in> reachable (shared_leaf_graph gx gg gy gf) 3"
proof -
  have "(3, 0) \<in> consumes (shared_leaf_graph gx gg gy gf)"
    by (simp add: consumes_def operands_def shared_leaf_graph_def)
  from reachable_closed [OF reachable_refl this] show ?thesis .
qed

text \<open>
  Claim C5, as stated, fails for a graph in which a node already holds a gradient. Build
  \<open>x = leaf(2)\<close>, \<open>g = neg(x)\<close>, call \<open>backward(g)\<close>, then build \<open>y = leaf(3)\<close> and
  \<open>f = mul(x, y)\<close>: the gradient of \<open>x\<close> is \<open>-1\<close>. The first \<open>backward(f)\<close> leaves 2 at
  \<open>x\<close>; \<open>zero_grad(f)\<close> clears the gradients of \<open>x\<close>, \<open>y\<close> and \<open>f\<close>; the next
  \<open>backward(f)\<close> leaves 3 at \<open>x\<close>, not 2.
\<close>

theorem reset_then_backward_counterexample:
  "run 2 [Leaf 2, Build (Neg 0), Backward 1, Leaf 3, Build (Mul 0 2)] []
     = Some (shared_leaf_graph (- 1) 1 0 0) \<and>
   backward 2 (shared_leaf_graph (- 1) 1 0 0) 3 = Some (shared_leaf_graph 2 1 2 1) \<and>
   zero_grad 2 (shared_leaf_graph 2 1 2 1) 3 = Some (shared_leaf_graph 0 1 0 0) \<and>
   backward 2 (shared_leaf_graph 0 1 0 0) 3 = Some (shared_leaf_graph 3 1 2 1) \<and>
   0 \<in> reachable (shared_leaf_graph (- 1) 1 0 0) 3 \<and>
   grad (shared_leaf_graph 2 1 2 1 ! 0) = 2 \<and> grad (shared_leaf_graph 3 1 2 1 ! 0) = 3"
proof -
  have "grad (shared_leaf_graph 2 1 2 1 ! 0) = 2" "grad (shared_leaf_graph 3 1 2 1 ! 0) = 3"
    by (simp_all add: shared_leaf_graph_def)
  then show ?thesis
    using shared_leaf_graph_built shared_leaf_graph_backward [of "- 1" 1 0 0]
      shared_leaf_graph_backward [of 0 1 0 0] shared_leaf_graph_zero_grad [of 2 1 2 1]
      shared_leaf_graph_reachable [of "- 1" 1 0 0]
    by simp
qed

text \<open>
  Claim C5, amended. For every acyclic graph without dangling pointers and every root
  \<open>f\<close>: \<open>backward(f)\<close> followed by \<open>zero_grad(f)\<close> returns, and afterwards every node
  reachable from \<open>f\<close> has gradient 0. If moreover every node reachable from \<open>f\<close> other than
  \<open>f\<close> itself had gradient 0 before the first \<open>backward(f)\<close>, as in a freshly built graph,
  then a further \<open>backward(f)\<close> returns the very heap the first one returned, so every
  gradient equals the value it had after the first \<open>backward(f)\<close>.
\<close>

theorem reset_then_backward:
  assumes acyc: "acyclic_by rank h" and valid: "pointers_valid h"
    and r: "r < length h" and fuel: "rank r < n"
  shows "\<exists>h1 h2. backward n h r = Some h1 \<and> zero_grad n h1 r = Some h2 \<and>
           reachable h1 r = reachable h r \<and> reachable h2 r = reachable h r \<and>
           (\<forall>q \<in> reachable h r. grad (h2 ! q) = 0) \<and>
           ((\<forall>q \<in> reachable h r - {r}. grad (h ! q) = 0) \<longrightarrow> backward n h2 r = Some h1)"
proof -
  from backward_correct [OF assms] obtain h1
    where bw: "backward n h r = Some h1" and sh1: "shape h1 = shape h"
      and fr1: "\<forall>q. q \<notin> reachable h r \<longrightarrow> h1 ! q = h ! q"
    by blast
  have len1: "length h1 = length h" using sh1 by (rule shape_length)
  have acyc1: "acyclic_by rank h1" using acyc acyclic_by_shape [OF sh1] by simp
  have valid1: "pointers_valid h1" using valid pointers_valid_shape [OF sh1] by simp
  have r1: "r < length h1" using r len1 by simp
  have reach1: "reachable h1 r = reachable h r" using sh1 by (rule reachable_shape)
  from zero_grad_correct [OF acyc1 valid1 r1 fuel] obtain h2
    where zg: "zero_grad n h1 r = Some h2" and sh2: "shape h2 = shape h1"
      and zeroed: "\<forall>q \<in> reachable h r. grad (h2 ! q) = 0"
      and fr2: "\<forall>q. q \<notin> reachable h r \<longrightarrow> h2 ! q = h1 ! q"
    unfolding reach1 by blast
  have reach2: "reachable h2 r = reachable h r"
    using reachable_shape [OF sh2] reach1 by simp
  have again: "backward n h2 r = Some h1"
    if fresh: "\<forall>q \<in> reachable h r - {r}. grad (h ! q) = 0"
  proof -
    let ?h = "h[r := (h ! r)\<lparr>grad := 0\<rparr>]"
    have sh: "shape ?h = shape h" using r by (rule shape_update_grad)
    have "h2 = ?h"
    proof (rule heap_eqI)
      show "shape h2 = shape ?h" using sh sh1 sh2 by simp
    next
      fix q assume "q < length ?h"
      show "grad (h2 ! q) = grad (?h ! q)"
      proof (cases "q \<in> reachable h r")
        case True
        then have "grad (?h ! q) = 0" using fresh r by (cases "q = r") auto
        then show ?thesis using zeroed True by simp
      next
        case False
        then have "q \<noteq> r" using reachable_refl [of r h] by auto
        then show ?thesis using False fr1 fr2 by simp
      qed
    qed
    then show ?thesis using backward_ignores_root_grad [OF r, of n 0] bw by simp
  qed
  show ?thesis using bw zg reach1 reach2 zeroed again by blast
qed

theorem reset_then_backward_witness:
  "acyclic_by (\<lambda>p. p) (product_graph 0 0 5) \<and> pointers_valid (product_graph 0 0 5) \<and>
   2 < length (product_graph 0 0 5) \<and> (2::nat) < 3 \<and>
   backward 3 (product_graph 0 0 5) 2 = Some (product_graph 3 2 1) \<and>
   zero_grad 3 (product_graph 3 2 1) 2 = Some (product_graph 0 0 0) \<and>
   reachable (product_graph 0 0 5) 2 = {0, 1, 2} \<and>
   grad (product_graph 0 0 5 ! 0) = 0 \<and> grad (product_graph 0 0 5 ! 1) = 0 \<and>
   grad (product_graph 0 0 0 ! 0) = 0 \<and> grad (product_graph 0 0 0 ! 1) = 0 \<and>
   grad (product_graph 0 0 0 ! 2) = 0 \<and>
   backward 3 (product_graph 0 0 0) 2 = Some (product_graph 3 2 1)"
proof -
  have len: "2 < length (product_graph 0 0 5)" by (simp add: product_graph_def)
  have b: "backward 3 (product_graph 0 0 5) 2 = Some (product_graph 3 2 1)"
    using product_graph_backward [of 0 0 5] by simp
  have g: "grad (product_graph 0 0 5 ! 0) = 0" "grad (product_graph 0 0 5 ! 1) = 0"
    by (simp_all add: product_graph_def)
  from reset_then_backward [of "\<lambda>p. p" "product_graph 0 0 5" 2 3] product_graph_ok [of 0 0 5] len
  have "backward 3 (product_graph 0 0 0) 2 = Some (product_graph 3 2 1) \<and>
        grad (product_graph 0 0 0 ! 0) = 0 \<and> grad (product_graph 0 0 0 ! 1) = 0 \<and>
        grad (product_graph 0 0 0 ! 2) = 0"
    using g by (auto simp: b product_graph_zero_grad product_graph_reachable)
  then show ?thesis
    using product_graph_ok [of 0 0 5] len b g product_graph_zero_grad [of 3 2 1]
      product_graph_reachable [of 0 0 5]
    by simp
qed

section \<open>Worked examples\<close>

lemma fuel_ge_3: "3 \<le> n \<Longrightarrow> \<exists>k. n = Suc (Suc (Suc k))"
  by (metis Suc_le_D Suc_le_mono numeral_3_eq_3)

lemma fuel_ge_2: "2 \<le> n \<Longrightarrow> \<exists>k. n = Suc (Suc k)"
  by (metis Suc_le_D Suc_le_mono numeral_2_eq_2)

text \<open>
  Claim C1. With \<open>x = leaf(2)\<close>, \<open>y = leaf(3)\<close> and \<open>f = mul(add(x, y), x)\<close>, built in any
  heap, the value of \<open>f\<close> is 10, and after \<open>backward(f)\<close> (with any recursion bound of at
  least 3, the depth of the graph) the gradient of \<open>x\<close> is 7 and that of \<open>y\<close> is 2.
\<close>

theorem composite_example:
  assumes "3 \<le> n"
  shows "do { (h1, x) \<leftarrow> leaf h0 2; (h2, y) \<leftarrow> leaf h1 3;
              (h3, s) \<leftarrow> op_add h2 x y; (h4, f) \<leftarrow> op_mul h3 s x;
              h5 \<leftarrow> backward n h4 f;
              Some (val (h4 ! f), grad (h5 ! x), grad (h5 ! y)) } = Some (10, 7, 2)"
proof -
  from assms obtain k where "n = Suc (Suc (Suc k))"
    using fuel_ge_3 by blast
  then show ?thesis
    by (simp add: builder_defs backward_defs nth_append list_update_append)
qed

theorem composite_example_witness:
  "(3::nat) \<le> 3 \<and>
   do { (h1, x) \<leftarrow> leaf [] 2; (h2, y) \<leftarrow> leaf h1 3;
        (h3, s) \<leftarrow> op_add h2 x y; (h4, f) \<leftarrow> op_mul h3 s x;
        h5 \<leftarrow> backward 3 h4 f;
        Some (val (h4 ! f), grad (h5 ! x), grad (h5 ! y)) } = Some (10, 7, 2)"
  using composite_example [of 3 "[]"] by simp

text \<open>
  Claim C2. With \<open>x = leaf(3)\<close> and \<open>y = mul(x, x)\<close>, the same node as both operands, the
  value of \<open>y\<close> is 9 and after \<open>backward(y)\<close> the gradient of \<open>x\<close> is 6: both edges that
  target \<open>x\<close> contribute 3 and the contributions add up.
\<close>

theorem shared_node_example:
  assumes "2 \<le> n"
  shows "do { (h1, x) \<leftarrow> leaf h0 3; (h2, y) \<leftarrow> op_mul h1 x x;
              h3 \<leftarrow> backward n h2 y;
              c1 \<leftarrow> call_grad_fn (h2[y := (h2 ! y)\<lparr>grad := 1\<rparr>])
                      (grad_fn (backward_edges (h2 ! y) ! 0));
              c2 \<leftarrow> call_grad_fn (h2[y := (h2 ! y)\<lparr>grad := 1\<rparr>])
                      (grad_fn (backward_edges (h2 ! y) ! 1));
              Some (val (h2 ! y), grad (h3 ! x), map input (backward_edges (h2 ! y)) = [x, x],
                    c1, c2) }
         = Some (9, 6, True, 3, 3)"
proof -
  from assms obtain k where "n = Suc (Suc k)"
    using fuel_ge_2 by blast
  then show ?thesis
    by (simp add: builder_defs backward_defs nth_append list_update_append)
qed

theorem shared_node_example_witness:
  "(2::nat) \<le> 2 \<and>
   do { (h1, x) \<leftarrow> leaf [] 3; (h2, y) \<leftarrow> op_mul h1 x x;
        h3 \<leftarrow> backward 2 h2 y;
        c1 \<leftarrow> call_grad_fn (h2[y := (h2 ! y)\<lparr>grad := 1\<rparr>])
                (grad_fn (backward_edges (h2 ! y) ! 0));
        c2 \<leftarrow> call_grad_fn (h2[y := (h2 ! y)\<lparr>grad := 1\<rparr>])
                (grad_fn (backward_edges (h2 ! y) ! 1));
        Some (val (h2 ! y), grad (h3 ! x), map input (backward_edges (h2 ! y)) = [x, x],
              c1, c2) }
   = Some (9, 6, True, 3, 3)"
  using shared_node_example [of 2 "[]"] by simp

text \<open>
  Claim C10. With \<open>x = leaf(2)\<close>, \<open>y = leaf(3)\<close> and \<open>f = mul(x, y)\<close>, two calls of
  \<open>backward(f)\<close> with no \<open>zero_grad\<close> in between leave the gradient of \<open>x\<close> at 6, that of
  \<open>y\<close> at 4 and that of \<open>f\<close> at 1: the operands accumulate, the seed of the root is
  assigned anew. After the first call the three gradients are 3, 2 and 1.
\<close>

theorem backward_twice_example:
  assumes "2 \<le> n"
  shows "do { (h1, x) \<leftarrow> leaf h0 2; (h2, y) \<leftarrow> leaf h1 3; (h3, f) \<leftarrow> op_mul h2 x y;
              h4 \<leftarrow> backward n h3 f;
              h5 \<leftarrow> backward n h4 f;
              Some ((grad (h4 ! x), grad (h4 ! y), grad (h4 ! f)),
                    (grad (h5 ! x), grad (h5 ! y), grad (h5 ! f))) }
         = Some ((3, 2, 1), (6, 4, 1))"
proof -
  from assms obtain k where "n = Suc (Suc k)"
    using fuel_ge_2 by blast
  then show ?thesis
    by (simp add: builder_defs backward_defs nth_append list_update_append)
qed

theorem backward_twice_example_witness:
  "(2::nat) \<le> 2 \<and>
   do { (h1, x) \<leftarrow> leaf [] 2; (h2, y) \<leftarrow> leaf h1 3; (h3, f) \<leftarrow> op_mul h2 x y;
        h4 \<leftarrow> backward 2 h3 f;
        h5 \<leftarrow> backward 2 h4 f;
        Some ((grad (h4 ! x), grad (h4 ! y), grad (h4 ! f)),
              (grad (h5 ! x), grad (h5 ! y), grad (h5 ! f))) }
   = Some ((3, 2, 1), (6, 4, 1))"
  using backward_twice_example [of 2 "[]"] by simp









end
